theory Spec2Isabelle
  imports Main "HOL-Library.Sublist"
begin

section \<open>Data model\<close>

text \<open>
  The program is \<^verbatim>\<open>src/fairy_tale/fairy_tale.py\<close>. Python exceptions are values:
  a function that can raise returns \<open>error + 'a\<close>, with \<open>Inl\<close> the exception raised.
  \<open>OpenAIError\<close> stands for whatever the remote client raises; \<open>ValueError\<close>,
  \<open>AttributeError\<close> and \<open>IndexError\<close> are the interpreter's own.
\<close>

datatype error = OpenAIError | ValueError | AttributeError | IndexError

text \<open>
  The objects the OpenAI client returns, with the fields the program reads:
  \<^verbatim>\<open>thread.id\<close>, \<^verbatim>\<open>run.id\<close>, \<^verbatim>\<open>run.status\<close>, \<^verbatim>\<open>assistant.id\<close>,
  \<^verbatim>\<open>message.role\<close> and \<^verbatim>\<open>message.content\<close>. A status and a role are Python
  strings, compared with \<^verbatim>\<open>==\<close>. A message's content is a list of blocks; only a
  text block has the attribute \<^verbatim>\<open>.text\<close>.
\<close>

record thread =
  thread_id :: string

record run =
  run_id :: string
  status :: string

record assistant =
  assistant_id :: string

datatype content_block = Text_block string | Image_file_block string

record message =
  role :: string
  content :: "content_block list"

text \<open>
  The remote service is not part of the repository: the class \<^verbatim>\<open>AsyncOpenAI\<close> is
  a parameter of the model. Its state is any type \<open>'s\<close>, and holds whatever the
  answers of the service depend on; every operation the program awaits takes the state
  and returns the value or the exception, and the next state (a call that raises may
  still have changed the service). The fields are, in order,
  \<^verbatim>\<open>beta.threads.create()\<close>, \<^verbatim>\<open>beta.threads.delete(thread_id)\<close>,
  \<^verbatim>\<open>beta.threads.messages.create(thread_id, role, content)\<close>,
  \<^verbatim>\<open>beta.threads.messages.list(thread_id, order)\<close>,
  \<^verbatim>\<open>beta.threads.runs.create(thread_id, assistant_id)\<close> and
  \<^verbatim>\<open>beta.threads.runs.retrieve(thread_id, run_id)\<close>.
\<close>

record 's AsyncOpenAI =
  threads_create :: "'s \<Rightarrow> (error + thread) \<times> 's"
  threads_delete :: "string \<Rightarrow> 's \<Rightarrow> (error + unit) \<times> 's"
  messages_create :: "string \<Rightarrow> string \<Rightarrow> string \<Rightarrow> 's \<Rightarrow> (error + unit) \<times> 's"
  messages_list :: "string \<Rightarrow> string \<Rightarrow> 's \<Rightarrow> (error + message list) \<times> 's"
  runs_create :: "string \<Rightarrow> string \<Rightarrow> 's \<Rightarrow> (error + run) \<times> 's"
  runs_retrieve :: "string \<Rightarrow> string \<Rightarrow> 's \<Rightarrow> (error + run) \<times> 's"

text \<open>
  \<^verbatim>\<open>class FairyTale(AsyncOpenAI)\<close>: the client's operations, the topics and the
  assistant, which is \<open>None\<close> until \<^verbatim>\<open>create_assistant\<close> has run. The third
  attribute, \<^verbatim>\<open>responses\<close>, only keeps what \<^verbatim>\<open>write_fairy_tales\<close> returns;
  the model returns that value and has no field for it.
\<close>

record 's FairyTale = "'s AsyncOpenAI" +
  topics :: "string list"
  assistant :: "assistant option"

section \<open>The topics setter (lines 56-60) and the constructor (lines 24-37)\<close>

text \<open>
  \<^verbatim>\<open>any(xs)\<close> on a list of strings: some element is truthy, and a Python string is
  truthy when it is not empty.
\<close>

definition any :: "string list \<Rightarrow> bool" where
  "any xs = list_ex (\<lambda>x. x \<noteq> []) xs"

text \<open>
  \<^verbatim>\<open>
  @topics.setter
  def topics(self, *args: str) -> None:
      if not args or not any(*args):
          raise ValueError("At least one topic is required.")
      self._topics = list(*args)
  \<close>
  A property setter is called with the assigned value alone, so \<^verbatim>\<open>args\<close> is the
  one-element tuple holding that value, and \<^verbatim>\<open>any(*args)\<close> and \<^verbatim>\<open>list(*args)\<close>
  read the value itself. The result is the list stored in \<^verbatim>\<open>self._topics\<close>.
\<close>

definition topics_setter :: "string list \<Rightarrow> error + string list" where
  "topics_setter v =
     (let args = [v] in
      if args = [] \<or> \<not> any v then Inl ValueError else Inr v)"

text \<open>
  \<^verbatim>\<open>
  def __init__(self, api_key=None, *args):
      super().__init__(api_key=api_key)
      self.topics = list(args)
      self.assistant = None
      self.responses = None
  \<close>
  The client built by the parent's constructor is the argument \<open>c\<close>.
\<close>

definition FairyTale_init :: "'s AsyncOpenAI \<Rightarrow> string list \<Rightarrow> error + 's FairyTale" where
  "FairyTale_init c args =
     (case topics_setter args of
        Inl e \<Rightarrow> Inl e
      | Inr ts \<Rightarrow> Inr (AsyncOpenAI.extend c (FairyTale.fields ts None)))"

section \<open>One pipeline, run on its own (lines 93-165)\<close>

text \<open>
  An awaited computation takes the state of the remote service and gives the value or
  the exception together with the next state; \<open>None\<close> when it never returns, as
  \<^verbatim>\<open>wait_for_response\<close> may. The definitions of this section read a coroutine from
  its first line to its return with no other task in between; the next section cuts the
  same code at its \<^verbatim>\<open>await\<close>s, for \<^verbatim>\<open>asyncio.gather\<close>.
\<close>

type_synonym ('s, 'a) awaited = "'s \<Rightarrow> ((error + 'a) \<times> 's) option"

definition await :: "('s \<Rightarrow> (error + 'a) \<times> 's) \<Rightarrow> ('s, 'a) awaited" where
  "await f s = Some (f s)"

definition return :: "'a \<Rightarrow> ('s, 'a) awaited" where
  "return x s = Some (Inr x, s)"

definition raise :: "error \<Rightarrow> ('s, 'a) awaited" where
  "raise e s = Some (Inl e, s)"

text \<open>Sequencing: an exception or a divergence of the first part ends the whole.\<close>

definition bind :: "('s, 'a) awaited \<Rightarrow> ('a \<Rightarrow> ('s, 'b) awaited) \<Rightarrow> ('s, 'b) awaited" where
  "bind m f s =
     (case m s of
        None \<Rightarrow> None
      | Some (Inl e, s') \<Rightarrow> Some (Inl e, s')
      | Some (Inr x, s') \<Rightarrow> f x s')"

text \<open>
  \<^verbatim>\<open>
  while run.status == "queued" or run.status == "in_progress":
      run = await self.beta.threads.runs.retrieve(thread_id=thread_id, run_id=run.id)
      await asyncio.sleep(0.5)
  return run
  \<close>
  The loop has no bound. Sleeping does not touch the service.
\<close>

partial_function (option) poll ::
  "'s FairyTale \<Rightarrow> string \<Rightarrow> run \<Rightarrow> 's \<Rightarrow> ((error + run) \<times> 's) option" where
  "poll self tid r s =
     (if status r = ''queued'' \<or> status r = ''in_progress'' then
        (case runs_retrieve self tid (run_id r) s of
           (Inl e, s') \<Rightarrow> Some (Inl e, s')
         | (Inr r', s') \<Rightarrow> poll self tid r' s')
      else Some (Inr r, s))"

declare poll.simps [code]

text \<open>
  \<^verbatim>\<open>
  async def wait_for_response(self, thread_id):
      run = await self.beta.threads.runs.create(thread_id=thread_id,
                                                assistant_id=self.assistant.id)
      while ...
  \<close>
  Reading \<^verbatim>\<open>self.assistant.id\<close> raises AttributeError while the assistant is None.
\<close>

definition wait_for_response :: "'s FairyTale \<Rightarrow> string \<Rightarrow> ('s, run) awaited" where
  "wait_for_response self tid =
     (case assistant self of
        None \<Rightarrow> raise AttributeError
      | Some a \<Rightarrow> bind (await (runs_create self tid (assistant_id a))) (poll self tid))"

definition add_message :: "'s FairyTale \<Rightarrow> string \<Rightarrow> string \<Rightarrow> ('s, unit) awaited" where
  "add_message self tid msg = await (messages_create self tid ''user'' msg)"

text \<open>
  \<^verbatim>\<open>
  async def get_fairy_tale(self, first_prompt, second_prompt):
      thread = await self.beta.threads.create()
      await self.add_message(thread.id, first_prompt)
      run1 = await self.wait_for_response(thread.id)
      await self.add_message(thread.id, second_prompt)
      run2 = await self.wait_for_response(thread.id)
      messages = await self.beta.threads.messages.list(thread_id=thread.id, order="asc")
      await self.beta.threads.delete(thread_id=thread.id)
      if run1.status == "completed" and run2.status == "completed":
          return (message.content[0].text.value
                  for message in messages.data
                  if message.role == "assistant")
      return None
  \<close>
  The value returned on success is a generator, which has not run yet: the model returns
  \<^verbatim>\<open>messages.data\<close>, the list it will read, and \<open>tuple\<close> below runs it.
\<close>

definition finish :: "run \<Rightarrow> run \<Rightarrow> message list \<Rightarrow> message list option" where
  "finish run1 run2 messages =
     (if status run1 = ''completed'' \<and> status run2 = ''completed''
      then Some messages else None)"

definition get_fairy_tale ::
  "'s FairyTale \<Rightarrow> string \<Rightarrow> string \<Rightarrow> ('s, message list option) awaited" where
  "get_fairy_tale self first_prompt second_prompt =
     bind (await (threads_create self)) (\<lambda>thread.
     bind (add_message self (thread_id thread) first_prompt) (\<lambda>_.
     bind (wait_for_response self (thread_id thread)) (\<lambda>run1.
     bind (add_message self (thread_id thread) second_prompt) (\<lambda>_.
     bind (wait_for_response self (thread_id thread)) (\<lambda>run2.
     bind (await (messages_list self (thread_id thread) ''asc'')) (\<lambda>messages.
     bind (await (threads_delete self (thread_id thread))) (\<lambda>_.
     return (finish run1 run2 messages))))))))"

text \<open>
  \<^verbatim>\<open>message.content[0].text.value\<close>: IndexError on an empty content list,
  AttributeError on a block that is not text.
\<close>

definition text_value :: "message \<Rightarrow> error + string" where
  "text_value m =
     (case content m of
        [] \<Rightarrow> Inl IndexError
      | Text_block v # _ \<Rightarrow> Inr v
      | Image_file_block f # _ \<Rightarrow> Inl AttributeError)"

text \<open>
  \<^verbatim>\<open>tuple(g)\<close> for the generator \<open>g\<close> that \<open>get_fairy_tale\<close> returned over the list
  \<open>ms\<close>: the messages are read in order, those of another role are skipped, and the
  first exception ends the call.
\<close>

fun tuple :: "message list \<Rightarrow> error + string list" where
  "tuple [] = Inr []"
| "tuple (m # ms) =
     (if role m = ''assistant'' then
        (case text_value m of
           Inl e \<Rightarrow> Inl e
         | Inr v \<Rightarrow> (case tuple ms of Inl e \<Rightarrow> Inl e | Inr vs \<Rightarrow> Inr (v # vs)))
      else tuple ms)"

section \<open>The pipelines under asyncio.gather (lines 167-192)\<close>

text \<open>
  \<^verbatim>\<open>asyncio.gather\<close> runs one task for each coroutine on a single event loop: a
  task runs until it awaits the remote service (or the timer), and then any task may
  run. A suspended coroutine is the place of its pending \<^verbatim>\<open>await\<close> with the values
  of its local variables; a step performs the pending call and runs the code up to the
  next \<^verbatim>\<open>await\<close>, the return or the exception.
\<close>

datatype ('p, 'a) coroutine = Suspended 'p | Returned 'a | Raised error

text \<open>
  The places of \<^verbatim>\<open>wait_for_response\<close>: before \<^verbatim>\<open>runs.create\<close> (line 108), before
  \<^verbatim>\<open>runs.retrieve\<close> with the run last seen (line 113), and before
  \<^verbatim>\<open>asyncio.sleep\<close> with the run just retrieved (line 117).
\<close>

datatype waiting = At_runs_create | At_runs_retrieve run | At_sleep run

text \<open>The test of the \<^verbatim>\<open>while\<close> at line 112: go round once more, or return.\<close>

definition while_test :: "run \<Rightarrow> (waiting, run) coroutine" where
  "while_test r =
     (if status r = ''queued'' \<or> status r = ''in_progress''
      then Suspended (At_runs_retrieve r) else Returned r)"

fun wait_for_response_step ::
  "'s FairyTale \<Rightarrow> string \<Rightarrow> waiting \<Rightarrow> 's \<Rightarrow> (waiting, run) coroutine \<times> 's" where
  "wait_for_response_step self tid At_runs_create s =
     (case assistant self of
        None \<Rightarrow> (Raised AttributeError, s)
      | Some a \<Rightarrow>
          (case runs_create self tid (assistant_id a) s of
             (Inl e, s') \<Rightarrow> (Raised e, s')
           | (Inr r, s') \<Rightarrow> (while_test r, s')))"
| "wait_for_response_step self tid (At_runs_retrieve r) s =
     (case runs_retrieve self tid (run_id r) s of
        (Inl e, s') \<Rightarrow> (Raised e, s')
      | (Inr r', s') \<Rightarrow> (Suspended (At_sleep r'), s'))"
| "wait_for_response_step self tid (At_sleep r) s = (while_test r, s)"

text \<open>
  The places of \<^verbatim>\<open>get_fairy_tale\<close>, one for each \<^verbatim>\<open>await\<close> of lines 154 to 160,
  with the local variables bound so far. While it awaits \<^verbatim>\<open>wait_for_response\<close> it
  is wherever that coroutine is.
\<close>

datatype place =
    At_threads_create
  | At_add_message1 thread
  | At_wait1 thread waiting
  | At_add_message2 thread run
  | At_wait2 thread run waiting
  | At_messages_list thread run run
  | At_threads_delete thread run run "message list"

fun get_fairy_tale_step ::
  "'s FairyTale \<Rightarrow> string \<Rightarrow> string \<Rightarrow> place \<Rightarrow> 's
     \<Rightarrow> (place, message list option) coroutine \<times> 's" where
  "get_fairy_tale_step self first_prompt second_prompt At_threads_create s =
     (case threads_create self s of
        (Inl e, s') \<Rightarrow> (Raised e, s')
      | (Inr thread, s') \<Rightarrow> (Suspended (At_add_message1 thread), s'))"
| "get_fairy_tale_step self first_prompt second_prompt (At_add_message1 thread) s =
     (case messages_create self (thread_id thread) ''user'' first_prompt s of
        (Inl e, s') \<Rightarrow> (Raised e, s')
      | (Inr u, s') \<Rightarrow> (Suspended (At_wait1 thread At_runs_create), s'))"
| "get_fairy_tale_step self first_prompt second_prompt (At_wait1 thread w) s =
     (case wait_for_response_step self (thread_id thread) w s of
        (Raised e, s') \<Rightarrow> (Raised e, s')
      | (Suspended w', s') \<Rightarrow> (Suspended (At_wait1 thread w'), s')
      | (Returned run1, s') \<Rightarrow> (Suspended (At_add_message2 thread run1), s'))"
| "get_fairy_tale_step self first_prompt second_prompt (At_add_message2 thread run1) s =
     (case messages_create self (thread_id thread) ''user'' second_prompt s of
        (Inl e, s') \<Rightarrow> (Raised e, s')
      | (Inr u, s') \<Rightarrow> (Suspended (At_wait2 thread run1 At_runs_create), s'))"
| "get_fairy_tale_step self first_prompt second_prompt (At_wait2 thread run1 w) s =
     (case wait_for_response_step self (thread_id thread) w s of
        (Raised e, s') \<Rightarrow> (Raised e, s')
      | (Suspended w', s') \<Rightarrow> (Suspended (At_wait2 thread run1 w'), s')
      | (Returned run2, s') \<Rightarrow> (Suspended (At_messages_list thread run1 run2), s'))"
| "get_fairy_tale_step self first_prompt second_prompt (At_messages_list thread run1 run2) s =
     (case messages_list self (thread_id thread) ''asc'' s of
        (Inl e, s') \<Rightarrow> (Raised e, s')
      | (Inr messages, s') \<Rightarrow> (Suspended (At_threads_delete thread run1 run2 messages), s'))"
| "get_fairy_tale_step self first_prompt second_prompt
       (At_threads_delete thread run1 run2 messages) s =
     (case threads_delete self (thread_id thread) s of
        (Inl e, s') \<Rightarrow> (Raised e, s')
      | (Inr u, s') \<Rightarrow> (Returned (finish run1 run2 messages), s'))"

text \<open>
  A task of the event loop: the coroutine \<^verbatim>\<open>get_fairy_tale(first, second)\<close> with its
  two arguments, and where it is. A task that has returned or raised does not move.
\<close>

record task =
  first_arg :: string
  second_arg :: string
  at :: "(place, message list option) coroutine"

definition task_step :: "'s FairyTale \<Rightarrow> task \<Rightarrow> 's \<Rightarrow> task \<times> 's" where
  "task_step self t s =
     (case at t of
        Suspended p \<Rightarrow>
          (case get_fairy_tale_step self (first_arg t) (second_arg t) p s of
             (c, s') \<Rightarrow> (t\<lparr>at := c\<rparr>, s'))
      | _ \<Rightarrow> (t, s))"

definition raised :: "task list \<Rightarrow> error list" where
  "raised ts = concat (map (\<lambda>t. case at t of Raised e \<Rightarrow> [e] | _ \<Rightarrow> []) ts)"

definition is_returned :: "task \<Rightarrow> bool" where
  "is_returned t = (case at t of Returned x \<Rightarrow> True | _ \<Rightarrow> False)"

definition result :: "task \<Rightarrow> message list option" where
  "result t = (case at t of Returned x \<Rightarrow> x | _ \<Rightarrow> None)"

text \<open>
  \<^verbatim>\<open>await asyncio.gather(*coroutines)\<close>, with \<^verbatim>\<open>return_exceptions\<close> left at False.
  The event loop's choices are the schedule: the indices of the tasks it resumes, in
  order. As soon as a task has raised, gather raises that exception to its caller, and
  the other tasks are left where they are; when every task has returned, gather returns
  their values in the order of the tasks. An index outside the list, or of a task that
  has returned, resumes nothing. \<open>None\<close>: the schedule ended before gather did.
\<close>

fun gather ::
  "'s FairyTale \<Rightarrow> nat list \<Rightarrow> task list \<Rightarrow> 's
     \<Rightarrow> ((error + message list option list) \<times> 's) option" where
  "gather self sched ts s =
     (case raised ts of
        e # _ \<Rightarrow> Some (Inl e, s)
      | [] \<Rightarrow>
          if list_all is_returned ts then Some (Inr (map result ts), s)
          else (case sched of
                  [] \<Rightarrow> None
                | i # sched' \<Rightarrow>
                    if i < length ts then
                      (case task_step self (ts ! i) s of
                         (t', s') \<Rightarrow> gather self sched' (ts[i := t']) s')
                    else gather self sched' ts s))"

declare gather.simps [simp del]

text \<open>
  \<^verbatim>\<open>list(map(tuple, gs))\<close>: each generator is run in turn, and the first exception
  ends the call.
\<close>

fun map_tuple :: "message list list \<Rightarrow> error + string list list" where
  "map_tuple [] = Inr []"
| "map_tuple (g # gs) =
     (case tuple g of
        Inl e \<Rightarrow> Inl e
      | Inr v \<Rightarrow> (case map_tuple gs of Inl e \<Rightarrow> Inl e | Inr vs \<Rightarrow> Inr (v # vs)))"

text \<open>
  \<^verbatim>\<open>
  async def write_fairy_tales(self, first_prompt, second_prompt):
      self.responses = await asyncio.gather(*(
          self.get_fairy_tale(f"{first_prompt}{topic}.", second_prompt)
          for topic in self.topics))
      self.responses = filter(lambda x: x is not None, self.responses)
      self.responses = list(map(tuple, self.responses))
      return self.responses
  \<close>
  The schedule of the event loop is an argument. \<open>None\<close> as for gather.
\<close>

definition new_task :: "string \<Rightarrow> string \<Rightarrow> string \<Rightarrow> task" where
  "new_task first_prompt second_prompt topic =
     \<lparr>first_arg = first_prompt @ topic @ ''.'', second_arg = second_prompt,
      at = Suspended At_threads_create\<rparr>"

definition write_fairy_tales ::
  "'s FairyTale \<Rightarrow> string \<Rightarrow> string \<Rightarrow> nat list \<Rightarrow> ('s, string list list) awaited" where
  "write_fairy_tales self first_prompt second_prompt sched s =
     (case gather self sched (map (new_task first_prompt second_prompt) (topics self)) s of
        None \<Rightarrow> None
      | Some (Inl e, s') \<Rightarrow> Some (Inl e, s')
      | Some (Inr rs, s') \<Rightarrow> Some (map_tuple (map the (filter (\<lambda>x. x \<noteq> None) rs)), s'))"

section \<open>The document assembler (class PDF, lines 195-290)\<close>

text \<open>
  The base class \<^verbatim>\<open>FPDF\<close> is a library: the model keeps the calls made on it, in
  order, and takes each of them to succeed. \<open>Output p\<close> is \<^verbatim>\<open>self.output(p)\<close>, the
  one call that writes a file.
\<close>

datatype fpdf_call =
    Add_page
  | Set_font string string nat
  | Write_text string
  | Insert_toc_placeholder
  | Start_section string
  | Output string

record PDF =
  path :: string
  calls :: "fpdf_call list"

definition call :: "fpdf_call \<Rightarrow> PDF \<Rightarrow> PDF" where
  "call c pdf = pdf\<lparr>calls := calls pdf @ [c]\<rparr>"

definition title_page :: "PDF \<Rightarrow> PDF" where
  "title_page pdf =
     call Insert_toc_placeholder
       (call (Write_text (''Fairy tales by ChatGPT'' @ [CHR 0x0A, CHR 0x0A]))
          (call (Set_font ''Roboto'' ''B'' 42)
             (call Add_page pdf)))"

definition subtitle :: "PDF \<Rightarrow> string \<Rightarrow> PDF" where
  "subtitle pdf txt = call (Write_text [CHR 0x0A]) (call (Start_section txt) pdf)"

definition content_pdf :: "PDF \<Rightarrow> string \<Rightarrow> bool \<Rightarrow> PDF" where
  "content_pdf pdf txt is_last =
     (let pdf1 = call (Set_font ''Roboto'' '''' 14) pdf;
          pdf2 = call (Write_text txt) pdf1;
          pdf3 = call (Write_text [CHR 0x0A]) pdf2
      in if \<not> is_last then call Add_page pdf3 else pdf3)"

text \<open>
  A Python value as \<^verbatim>\<open>isinstance(x, str)\<close> sees it: a string, or something else.
  An entry of the result list is a tuple of such values, of any length.
\<close>

datatype pyval = Str string | Int_val int | None_val

text \<open>
  \<^verbatim>\<open>
  for i, (content, title) in enumerate(responses):
      if isinstance(content, str) and isinstance(title, str):
          self.subtitle(title)
          self.content(content, i==len(responses)-1)
      else:
          raise ValueError("Invalid response.")
  \<close>
  \<open>save_loop pdf i n rest\<close> is the loop at index \<open>i\<close>, with \<open>n = len(responses)\<close>
  and \<open>rest\<close> the entries from \<open>i\<close> on. Unpacking an entry that does not have exactly
  two elements raises ValueError, as the else branch does.
\<close>

fun save_loop :: "PDF \<Rightarrow> nat \<Rightarrow> nat \<Rightarrow> pyval list list \<Rightarrow> (error + unit) \<times> PDF" where
  "save_loop pdf i n [] = (Inr (), pdf)"
| "save_loop pdf i n ([Str c, Str t] # rest) =
     save_loop (content_pdf (subtitle pdf t) c (int i = int n - 1)) (Suc i) n rest"
| "save_loop pdf i n (entry # rest) = (Inl ValueError, pdf)"

text \<open>
  \<^verbatim>\<open>
  def save_fairy_tales(self, responses):
      self.title_page()
      for ...
      self.output(self.path)
  \<close>
\<close>

definition save_fairy_tales :: "PDF \<Rightarrow> pyval list list \<Rightarrow> (error + unit) \<times> PDF" where
  "save_fairy_tales pdf rs =
     (case save_loop (title_page pdf) 0 (length rs) rs of
        (Inl e, pdf') \<Rightarrow> (Inl e, pdf')
      | (Inr u, pdf') \<Rightarrow> (Inr (), call (Output (path pdf')) pdf'))"

fun is_str_pair :: "pyval list \<Rightarrow> bool" where
  "is_str_pair [Str c, Str t] = True"
| "is_str_pair entry = False"

definition outputs :: "PDF \<Rightarrow> string list" where
  "outputs pdf = concat (map (\<lambda>c. case c of Output p \<Rightarrow> [p] | _ \<Rightarrow> []) (calls pdf))"

section \<open>A scripted service for the examples\<close>

text \<open>
  The theorems below hold for every service. Their examples use this deterministic
  one. It keeps, for each thread, the user messages posted, the number of polls of the
  current run, and whether the thread was deleted. A run is \<open>queued\<close> when created,
  \<open>in_progress\<close> at its first poll and afterwards has the status that \<open>verdict\<close> gives
  for the last user message. Listing a thread gives each user message followed by the
  assistant messages \<open>replies\<close> has for it. Posting a message that \<open>broken\<close> holds for
  raises OpenAIError.
\<close>

record scripted_thread =
  name :: string
  posted :: "string list"
  polls :: nat
  deleted :: bool

definition on_thread ::
  "string \<Rightarrow> (scripted_thread \<Rightarrow> scripted_thread) \<Rightarrow> scripted_thread list \<Rightarrow> scripted_thread list" where
  "on_thread tid f s = map (\<lambda>t. if name t = tid then f t else t) s"

definition scripted ::
  "(string \<Rightarrow> string) \<Rightarrow> (string \<Rightarrow> string list) \<Rightarrow> (string \<Rightarrow> bool)
     \<Rightarrow> scripted_thread list AsyncOpenAI" where
  "scripted verdict replies broken =
     \<lparr>threads_create = (\<lambda>s.
        (Inr \<lparr>thread_id = replicate (Suc (length s)) CHR ''t''\<rparr>,
         s @ [\<lparr>name = replicate (Suc (length s)) CHR ''t'', posted = [], polls = 0,
               deleted = False\<rparr>])),
      threads_delete = (\<lambda>tid s. (Inr (), on_thread tid (\<lambda>t. t\<lparr>deleted := True\<rparr>) s)),
      messages_create = (\<lambda>tid r msg s.
        if broken msg then (Inl OpenAIError, s)
        else (Inr (), on_thread tid (\<lambda>t. t\<lparr>posted := posted t @ [msg]\<rparr>) s)),
      messages_list = (\<lambda>tid ord s.
        case find (\<lambda>t. name t = tid) s of
          None \<Rightarrow> (Inl OpenAIError, s)
        | Some t \<Rightarrow>
            (Inr (concat (map (\<lambda>msg.
                     \<lparr>role = ''user'', content = [Text_block msg]\<rparr>
                     # map (\<lambda>v. \<lparr>role = ''assistant'', content = [Text_block v]\<rparr>) (replies msg))
                   (posted t))), s)),
      runs_create = (\<lambda>tid aid s.
        (Inr \<lparr>run_id = ''r'', status = ''queued''\<rparr>, on_thread tid (\<lambda>t. t\<lparr>polls := 0\<rparr>) s)),
      runs_retrieve = (\<lambda>tid rid s.
        case find (\<lambda>t. name t = tid) s of
          None \<Rightarrow> (Inl OpenAIError, s)
        | Some t \<Rightarrow>
            (Inr \<lparr>run_id = rid,
                  status = (if polls t = 0 \<or> posted t = [] then ''in_progress''
                            else verdict (last (posted t)))\<rparr>,
             on_thread tid (\<lambda>t. t\<lparr>polls := Suc (polls t)\<rparr>) s))\<rparr>"

text \<open>
  A generator on the scripted service, with its assistant created, for the given topics.
\<close>

definition scripted_tale ::
  "(string \<Rightarrow> string) \<Rightarrow> (string \<Rightarrow> string list) \<Rightarrow> (string \<Rightarrow> bool) \<Rightarrow> string list
     \<Rightarrow> scripted_thread list FairyTale" where
  "scripted_tale verdict replies broken ts =
     AsyncOpenAI.extend (scripted verdict replies broken)
       (FairyTale.fields ts (Some \<lparr>assistant_id = ''a''\<rparr>))"

text \<open>Scripts for the examples.\<close>

definition fails_on_b :: "string \<Rightarrow> string" where
  "fails_on_b msg = (if msg = ''T:b.'' then ''failed'' else ''completed'')"

definition echo :: "string \<Rightarrow> string list" where
  "echo msg = [''re '' @ msg]"

definition twice :: "string \<Rightarrow> string list" where
  "twice msg = (if msg = ''Q'' then [''Title''] else [''Once'', ''upon''])"

definition never :: "string \<Rightarrow> bool" where
  "never msg = False"

section \<open>Notions the properties are stated with\<close>

text \<open>A run that the loop of \<^verbatim>\<open>wait_for_response\<close> keeps polling.\<close>

definition busy :: "run \<Rightarrow> bool" where
  "busy r = (status r = ''queued'' \<or> status r = ''in_progress'')"

text \<open>
  The service reports a status other than \<open>queued\<close> and \<open>in_progress\<close> within \<open>n\<close>
  polls of the run \<open>r\<close>, from the state \<open>s\<close>: the run already has such a status, or the
  next poll returns a run for which this holds with one poll less.
\<close>

fun settles :: "'s FairyTale \<Rightarrow> string \<Rightarrow> nat \<Rightarrow> run \<Rightarrow> 's \<Rightarrow> bool" where
  "settles self tid 0 r s = (\<not> busy r)"
| "settles self tid (Suc n) r s =
     (\<not> busy r \<or>
      (case runs_retrieve self tid (run_id r) s of
         (Inl e, s') \<Rightarrow> False
       | (Inr r', s') \<Rightarrow> settles self tid n r' s'))"

text \<open>
  The same for a whole call of \<^verbatim>\<open>wait_for_response\<close>: the assistant exists, the
  run is created, and its status settles within \<open>n\<close> polls.
\<close>

definition eventually_reports :: "'s FairyTale \<Rightarrow> string \<Rightarrow> nat \<Rightarrow> 's \<Rightarrow> bool" where
  "eventually_reports self tid n s =
     (case assistant self of
        None \<Rightarrow> False
      | Some a \<Rightarrow>
          (case runs_create self tid (assistant_id a) s of
             (Inl e, s') \<Rightarrow> False
           | (Inr r, s') \<Rightarrow> settles self tid n r s'))"

text \<open>
  What the service reports for a run that is polled: \<open>report self tid k r s\<close> is the run
  and the service state after \<open>k\<close> polls in a row of the run \<open>r\<close> from the state \<open>s\<close>,
  each poll asking for the id of the run the poll before returned, and None when one
  of these polls raises.
\<close>

fun report :: "'s FairyTale \<Rightarrow> string \<Rightarrow> nat \<Rightarrow> run \<Rightarrow> 's \<Rightarrow> (run \<times> 's) option" where
  "report self tid 0 r s = Some (r, s)"
| "report self tid (Suc k) r s =
     (case runs_retrieve self tid (run_id r) s of
        (Inl e, s') \<Rightarrow> None
      | (Inr r', s') \<Rightarrow> report self tid k r' s')"

text \<open>
  The run \<open>r\<close>, with the service state \<open>s'\<close>, is the first report of the run \<open>r0\<close> whose
  status is neither \<open>queued\<close> nor \<open>in_progress\<close>: it is the report after \<open>k\<close> polls, and
  the run created and every report before it are still queued or in progress.
\<close>

definition first_settled ::
  "'s FairyTale \<Rightarrow> string \<Rightarrow> nat \<Rightarrow> run \<Rightarrow> 's \<Rightarrow> run \<Rightarrow> 's \<Rightarrow> bool" where
  "first_settled self tid k r0 s0 r s' =
     (report self tid k r0 s0 = Some (r, s')
      \<and> \<not> busy r
      \<and> (\<forall>j \<in> set [0..<k].
            case report self tid j r0 s0 of
              None \<Rightarrow> False
            | Some (rj, sj) \<Rightarrow> busy rj))"

text \<open>
  \<open>resume self t ss\<close> is the task \<open>t\<close> after the event loop has resumed it once at
  each of the service states \<open>ss\<close>, in order. Between two of its steps other tasks run,
  so the states are not chained: whatever holds for every \<open>ss\<close> holds under every
  interleaving.
\<close>

fun resume :: "'s FairyTale \<Rightarrow> task \<Rightarrow> 's list \<Rightarrow> task" where
  "resume self t [] = t"
| "resume self t (s # ss) = resume self (fst (task_step self t s)) ss"

definition becomes :: "'s FairyTale \<Rightarrow> task \<Rightarrow> task \<Rightarrow> bool" where
  "becomes self t t' = (\<exists>ss. t' = resume self t ss)"

text \<open>
  The tuple \<open>v\<close> is the result of a pipeline started for \<open>topic\<close>: the task created for
  the topic returns a generator, and \<open>v\<close> is the tuple made from it.
\<close>

definition produced_for ::
  "'s FairyTale \<Rightarrow> string \<Rightarrow> string \<Rightarrow> string \<Rightarrow> string list \<Rightarrow> bool" where
  "produced_for self first_prompt second_prompt topic v =
     (\<exists>ss g. at (resume self (new_task first_prompt second_prompt topic) ss) = Returned (Some g)
            \<and> tuple g = Inr v)"

text \<open>
  The pipelines run one after the other, each to its end before the next starts: one
  of the orders the event loop may choose.
\<close>

fun one_by_one ::
  "'s FairyTale \<Rightarrow> string \<Rightarrow> string \<Rightarrow> string list \<Rightarrow> ('s, message list option list) awaited" where
  "one_by_one self first_prompt second_prompt [] = return []"
| "one_by_one self first_prompt second_prompt (topic # left) =
     bind (get_fairy_tale self (first_prompt @ topic @ ''.'') second_prompt) (\<lambda>r.
     bind (one_by_one self first_prompt second_prompt left) (\<lambda>rs.
     return (r # rs)))"

text \<open>The task of a topic once it has returned \<open>r\<close>.\<close>

definition returned_task :: "string \<Rightarrow> string \<Rightarrow> string \<Rightarrow> message list option \<Rightarrow> task" where
  "returned_task first_prompt second_prompt topic r =
     \<lparr>first_arg = first_prompt @ topic @ ''.'', second_arg = second_prompt, at = Returned r\<rparr>"

text \<open>The service raises \<open>e\<close> on some call made in the state \<open>s\<close>.\<close>

definition service_raises :: "'s FairyTale \<Rightarrow> error \<Rightarrow> 's \<Rightarrow> bool" where
  "service_raises self e s =
     (fst (threads_create self s) = Inl e
      \<or> (\<exists>tid. fst (threads_delete self tid s) = Inl e)
      \<or> (\<exists>tid r msg. fst (messages_create self tid r msg s) = Inl e)
      \<or> (\<exists>tid ord. fst (messages_list self tid ord s) = Inl e)
      \<or> (\<exists>tid aid. fst (runs_create self tid aid s) = Inl e)
      \<or> (\<exists>tid rid. fst (runs_retrieve self tid rid s) = Inl e))"

text \<open>
  Two invariants of the places. From line 157 on, the variable \<^verbatim>\<open>run1\<close> holds a
  run that is no longer polled, and from line 159 on so does \<^verbatim>\<open>run2\<close>.
\<close>

fun runs_over :: "(place, message list option) coroutine \<Rightarrow> bool" where
  "runs_over (Suspended (At_add_message2 thread run1)) = (\<not> busy run1)"
| "runs_over (Suspended (At_wait2 thread run1 w)) = (\<not> busy run1)"
| "runs_over (Suspended (At_messages_list thread run1 run2)) = (\<not> busy run1 \<and> \<not> busy run2)"
| "runs_over (Suspended (At_threads_delete thread run1 run2 messages)) =
     (\<not> busy run1 \<and> \<not> busy run2)"
| "runs_over c = True"

text \<open>
  From line 155 on, the variable \<^verbatim>\<open>thread\<close> holds a thread that
  \<^verbatim>\<open>threads.create\<close> returned.
\<close>

fun thread_at :: "place \<Rightarrow> thread option" where
  "thread_at At_threads_create = None"
| "thread_at (At_add_message1 thread) = Some thread"
| "thread_at (At_wait1 thread w) = Some thread"
| "thread_at (At_add_message2 thread run1) = Some thread"
| "thread_at (At_wait2 thread run1 w) = Some thread"
| "thread_at (At_messages_list thread run1 run2) = Some thread"
| "thread_at (At_threads_delete thread run1 run2 messages) = Some thread"

definition own_thread :: "'s FairyTale \<Rightarrow> (place, message list option) coroutine \<Rightarrow> bool" where
  "own_thread self c =
     (case c of
        Suspended p \<Rightarrow>
          (case thread_at p of
             None \<Rightarrow> True
           | Some thread \<Rightarrow> \<exists>s. fst (threads_create self s) = Inr thread)
      | _ \<Rightarrow> True)"

section \<open>Notions that relate the two readings of a pipeline\<close>

text \<open>
  \<open>run_alone self n t s\<close>: the task \<open>t\<close> is resumed \<open>n\<close> times in a row from the
  service state \<open>s\<close>, each step starting in the state the step before left.
\<close>

fun run_alone :: "'s FairyTale \<Rightarrow> nat \<Rightarrow> task \<Rightarrow> 's \<Rightarrow> task \<times> 's" where
  "run_alone self 0 t s = (t, s)"
| "run_alone self (Suc n) t s =
     (case task_step self t s of (t', s') \<Rightarrow> run_alone self n t' s')"

text \<open>How a coroutine that has ended shows the result of the awaited computation.\<close>

definition ended :: "error + message list option \<Rightarrow> (place, message list option) coroutine" where
  "ended res = (case res of Inl e \<Rightarrow> Raised e | Inr x \<Rightarrow> Returned x)"

text \<open>
  Either call of \<^verbatim>\<open>wait_for_response\<close> inside \<^verbatim>\<open>get_fairy_tale\<close>: \<open>emb\<close> is
  the place of the caller while it waits, \<open>cont\<close> its place once the run is returned.
\<close>

definition after_test ::
  "(waiting \<Rightarrow> place) \<Rightarrow> (run \<Rightarrow> place) \<Rightarrow> (waiting, run) coroutine
     \<Rightarrow> (place, message list option) coroutine" where
  "after_test emb cont c =
     (case c of
        Suspended w \<Rightarrow> Suspended (emb w)
      | Returned r \<Rightarrow> Suspended (cont r)
      | Raised e \<Rightarrow> Raised e)"

definition waits_in ::
  "'s FairyTale \<Rightarrow> string \<Rightarrow> string \<Rightarrow> string \<Rightarrow> (waiting \<Rightarrow> place) \<Rightarrow> (run \<Rightarrow> place) \<Rightarrow> bool" where
  "waits_in self p1 p2 tid emb cont =
     (\<forall>w s. get_fairy_tale_step self p1 p2 (emb w) s =
        (case wait_for_response_step self tid w s of
           (c, s') \<Rightarrow> (after_test emb cont c, s')))"

definition outcome :: "(run \<Rightarrow> place) \<Rightarrow> error + run \<Rightarrow> (place, message list option) coroutine" where
  "outcome cont res = (case res of Inl e \<Rightarrow> Raised e | Inr r \<Rightarrow> Suspended (cont r))"

text \<open>
  What is left of the awaited computation at each place: the code of
  \<^verbatim>\<open>wait_for_response\<close> and of \<^verbatim>\<open>get_fairy_tale\<close> from that \<^verbatim>\<open>await\<close> on.
\<close>

definition waiting_rest :: "'s FairyTale \<Rightarrow> string \<Rightarrow> waiting \<Rightarrow> ('s, run) awaited" where
  "waiting_rest self tid w =
     (case w of
        At_runs_create \<Rightarrow> wait_for_response self tid
      | At_runs_retrieve r \<Rightarrow> bind (await (runs_retrieve self tid (run_id r))) (poll self tid)
      | At_sleep r \<Rightarrow> poll self tid r)"

definition rest_delete ::
  "'s FairyTale \<Rightarrow> thread \<Rightarrow> run \<Rightarrow> run \<Rightarrow> message list \<Rightarrow> ('s, message list option) awaited" where
  "rest_delete self thread run1 run2 messages =
     bind (await (threads_delete self (thread_id thread)))
       (\<lambda>_. return (finish run1 run2 messages))"

definition rest_list ::
  "'s FairyTale \<Rightarrow> thread \<Rightarrow> run \<Rightarrow> run \<Rightarrow> ('s, message list option) awaited" where
  "rest_list self thread run1 run2 =
     bind (await (messages_list self (thread_id thread) ''asc''))
       (rest_delete self thread run1 run2)"

definition rest_wait2 ::
  "'s FairyTale \<Rightarrow> thread \<Rightarrow> run \<Rightarrow> ('s, run) awaited \<Rightarrow> ('s, message list option) awaited" where
  "rest_wait2 self thread run1 m = bind m (rest_list self thread run1)"

definition rest_add2 ::
  "'s FairyTale \<Rightarrow> string \<Rightarrow> thread \<Rightarrow> run \<Rightarrow> ('s, message list option) awaited" where
  "rest_add2 self second_prompt thread run1 =
     bind (add_message self (thread_id thread) second_prompt)
       (\<lambda>_. rest_wait2 self thread run1 (wait_for_response self (thread_id thread)))"

definition rest_wait1 ::
  "'s FairyTale \<Rightarrow> string \<Rightarrow> thread \<Rightarrow> ('s, run) awaited \<Rightarrow> ('s, message list option) awaited" where
  "rest_wait1 self second_prompt thread m = bind m (rest_add2 self second_prompt thread)"

definition rest_add1 ::
  "'s FairyTale \<Rightarrow> string \<Rightarrow> string \<Rightarrow> thread \<Rightarrow> ('s, message list option) awaited" where
  "rest_add1 self first_prompt second_prompt thread =
     bind (add_message self (thread_id thread) first_prompt)
       (\<lambda>_. rest_wait1 self second_prompt thread (wait_for_response self (thread_id thread)))"

fun rest :: "'s FairyTale \<Rightarrow> string \<Rightarrow> string \<Rightarrow> place \<Rightarrow> ('s, message list option) awaited" where
  "rest self first_prompt second_prompt At_threads_create =
     bind (await (threads_create self)) (rest_add1 self first_prompt second_prompt)"
| "rest self first_prompt second_prompt (At_add_message1 thread) =
     rest_add1 self first_prompt second_prompt thread"
| "rest self first_prompt second_prompt (At_wait1 thread w) =
     rest_wait1 self second_prompt thread (waiting_rest self (thread_id thread) w)"
| "rest self first_prompt second_prompt (At_add_message2 thread run1) =
     rest_add2 self second_prompt thread run1"
| "rest self first_prompt second_prompt (At_wait2 thread run1 w) =
     rest_wait2 self thread run1 (waiting_rest self (thread_id thread) w)"
| "rest self first_prompt second_prompt (At_messages_list thread run1 run2) =
     rest_list self thread run1 run2"
| "rest self first_prompt second_prompt (At_threads_delete thread run1 run2 messages) =
     rest_delete self thread run1 run2 messages"

text \<open>A step, and then what is left from the place it leads to.\<close>

definition carry_on ::
  "('p \<Rightarrow> ('s, 'a) awaited) \<Rightarrow> ('p, 'a) coroutine \<times> 's \<Rightarrow> ((error + 'a) \<times> 's) option" where
  "carry_on k cs =
     (case cs of
        (Suspended p, s) \<Rightarrow> k p s
      | (Returned x, s) \<Rightarrow> Some (Inr x, s)
      | (Raised e, s) \<Rightarrow> Some (Inl e, s))"

section \<open>Properties of the topics setter\<close>

lemma any_iff: "any xs \<longleftrightarrow> (\<exists>x \<in> set xs. x \<noteq> [])"
  by (simp add: any_def list_ex_iff)

lemma init_topics: "topics (AsyncOpenAI.extend c (FairyTale.fields ts a)) = ts"
  by (simp add: AsyncOpenAI.defs FairyTale.defs)

lemma init_assistant: "assistant (AsyncOpenAI.extend c (FairyTale.fields ts a)) = a"
  by (simp add: AsyncOpenAI.defs FairyTale.defs)

text \<open>
  C4 (amended). The setter raises ValueError exactly when every string of the assigned
  list is empty, which includes the empty list; otherwise it stores the list as it is.
  The constructor fails with ValueError in the same cases, and otherwise builds a
  generator with these topics. Nothing strips whitespace: a string of blanks is truthy
  and counts as a topic.
\<close>

theorem topics_setter_rejects:
  "topics_setter v = (if \<forall>t \<in> set v. t = [] then Inl ValueError else Inr v)
   \<and> (FairyTale_init c v = Inl ValueError \<longleftrightarrow> (\<forall>t \<in> set v. t = []))
   \<and> ((\<exists>t \<in> set v. t \<noteq> []) \<longrightarrow>
        (\<exists>self. FairyTale_init c v = Inr self \<and> topics self = v \<and> assistant self = None))"
  by (auto simp: FairyTale_init_def topics_setter_def any_iff init_topics init_assistant)

theorem topics_setter_rejects_witness:
  "topics_setter [] = Inl ValueError \<and> topics_setter ['''', ''''] = Inl ValueError
   \<and> topics_setter ['''', ''cat''] = Inr ['''', ''cat'']
   \<and> FairyTale_init (scripted fails_on_b echo never) [] = Inl ValueError
   \<and> FairyTale_init (scripted fails_on_b echo never) ['''', ''''] = Inl ValueError
   \<and> (\<exists>self. FairyTale_init (scripted fails_on_b echo never) ['''', ''cat''] = Inr self
          \<and> topics self = ['''', ''cat''] \<and> assistant self = None)"
  using topics_setter_rejects [of "[]" "scripted fails_on_b echo never"]
    topics_setter_rejects [of "['''', '''']" "scripted fails_on_b echo never"]
    topics_setter_rejects [of "['''', ''cat'']" "scripted fails_on_b echo never"]
  by simp

text \<open>
  C4 as stated fails: a list holding only a whitespace string is accepted, by the
  setter and by the constructor.
\<close>

theorem topics_setter_whitespace_counterexample:
  "topics_setter ['' ''] = Inr ['' '']
   \<and> (\<exists>self. FairyTale_init (scripted fails_on_b echo never) ['' ''] = Inr self
          \<and> topics self = ['' ''])"
  by (simp add: FairyTale_init_def topics_setter_def any_def init_topics)

section \<open>Properties of wait_for_response\<close>

lemma bind_returns:
  "bind m f s = Some (Inr y, s'') \<longleftrightarrow>
     (\<exists>x s'. m s = Some (Inr x, s') \<and> f x s' = Some (Inr y, s''))"
  by (auto simp: bind_def split: option.splits sum.splits prod.splits)

lemma bind_cases:
  "bind m f s = Some (res, s') \<longleftrightarrow>
     (\<exists>e. m s = Some (Inl e, s') \<and> res = Inl e)
     \<or> (\<exists>x sn. m s = Some (Inr x, sn) \<and> f x sn = Some (res, s'))"
  by (auto simp: bind_def split: option.splits sum.splits prod.splits)

lemma await_returns: "await f s = Some (Inr x, s') \<longleftrightarrow> f s = (Inr x, s')"
  by (auto simp: await_def)

lemma return_returns: "return x s = Some (Inr y, s') \<longleftrightarrow> y = x \<and> s' = s"
  by (auto simp: return_def)

text \<open>Partial correctness of the loop, by the induction rule of its fixed point.\<close>

lemma poll_result:
  "poll self tid r s = Some y \<Longrightarrow>
     (case y of (Inr r', s') \<Rightarrow> \<not> busy r' | (Inl e, s') \<Rightarrow> True)"
proof (induction rule: poll.raw_induct [rotated 1, consumes 1])
  case (1 f self tid r s y)
  show ?case
  proof (cases "busy r")
    case False
    with 1(2) show ?thesis by (auto simp: busy_def)
  next
    case True
    show ?thesis
    proof (cases "runs_retrieve self tid (run_id r) s")
      case (Pair a sn)
      show ?thesis
      proof (cases a)
        case (Inl e)
        with 1(2) True Pair show ?thesis by (auto simp: busy_def)
      next
        case (Inr rn)
        with 1(2) True Pair have "f self tid rn sn = Some y" by (auto simp: busy_def)
        then show ?thesis by (rule 1(1))
      qed
    qed
  qed
qed

lemma poll_not_busy: "poll self tid r s = Some (Inr r', s') \<Longrightarrow> \<not> busy r'"
  using poll_result [of self tid r s "(Inr r', s')"] by simp

text \<open>Termination of the loop, by induction on the number of polls left.\<close>

lemma poll_settles:
  "settles self tid n r s \<Longrightarrow> \<exists>r' s'. poll self tid r s = Some (Inr r', s')"
proof (induction n arbitrary: r s)
  case 0
  then show ?case by (subst poll.simps) (simp add: busy_def)
next
  case (Suc n)
  show ?case
  proof (cases "busy r")
    case False
    then show ?thesis by (subst poll.simps) (simp add: busy_def)
  next
    case True
    with Suc.prems obtain rn sn where
      step: "runs_retrieve self tid (run_id r) s = (Inr rn, sn)"
      and left: "settles self tid n rn sn"
      by (auto split: prod.splits sum.splits)
    from Suc.IH [OF left] obtain r' s' where "poll self tid rn sn = Some (Inr r', s')"
      by blast
    with True step show ?thesis by (subst poll.simps) (simp add: busy_def)
  qed
qed

text \<open>The run returned is the first report that is over, and the other way round.\<close>

lemma first_settled_0: "first_settled self tid 0 r0 s0 r s' \<longleftrightarrow> r = r0 \<and> s' = s0 \<and> \<not> busy r0"
  by (auto simp: first_settled_def)

lemma first_settled_Suc:
  "first_settled self tid (Suc k) r0 s0 r s' \<longleftrightarrow>
     busy r0 \<and> (\<exists>rn sn. runs_retrieve self tid (run_id r0) s0 = (Inr rn, sn)
                  \<and> first_settled self tid k rn sn r s')"
proof (cases "runs_retrieve self tid (run_id r0) s0")
  case (Pair a sn)
  show ?thesis
  proof (cases a)
    case (Inl e)
    with Pair show ?thesis by (simp add: first_settled_def)
  next
    case (Inr rn)
    have all: "(\<forall>j \<in> set [0..<Suc k]. P j) \<longleftrightarrow> P 0 \<and> (\<forall>j \<in> set [0..<k]. P (Suc j))" for P
    proof -
      have "(\<forall>j \<in> set [0..<n]. Q j) \<longleftrightarrow> (\<forall>j<n. Q j)" for n and Q :: "nat \<Rightarrow> bool"
        by auto
      then show ?thesis by (simp only: All_less_Suc2)
    qed
    from Pair Inr show ?thesis
      unfolding first_settled_def all by auto
  qed
qed

lemma poll_first_settled_aux:
  "poll self tid r0 s0 = Some y \<Longrightarrow>
     (case y of (Inr r, s') \<Rightarrow> \<exists>k. first_settled self tid k r0 s0 r s' | (Inl e, s') \<Rightarrow> True)"
proof (induction rule: poll.raw_induct [rotated 1, consumes 1])
  case (1 f self tid r0 s0 y)
  show ?case
  proof (cases "busy r0")
    case False
    with 1(2) have "y = (Inr r0, s0)" by (auto simp: busy_def)
    moreover from False have "first_settled self tid 0 r0 s0 r0 s0" by (simp add: first_settled_0)
    ultimately show ?thesis by auto
  next
    case True
    show ?thesis
    proof (cases "runs_retrieve self tid (run_id r0) s0")
      case (Pair a sn)
      show ?thesis
      proof (cases a)
        case (Inl e)
        with 1(2) True Pair show ?thesis by (auto simp: busy_def)
      next
        case (Inr rn)
        with 1(2) True Pair have "f self tid rn sn = Some y" by (auto simp: busy_def)
        then have ih: "case y of (Inr r, s') \<Rightarrow> \<exists>k. first_settled self tid k rn sn r s'
                        | (Inl e, s') \<Rightarrow> True"
          by (rule 1(1))
        show ?thesis
        proof (cases y)
          case (Pair b s')
          show ?thesis
          proof (cases b)
            case (Inl e)
            with Pair show ?thesis by simp
          next
            case (Inr r)
            with Pair ih obtain k where "first_settled self tid k rn sn r s'" by auto
            with True \<open>runs_retrieve self tid (run_id r0) s0 = (a, sn)\<close> \<open>a = Inr rn\<close>
            have "first_settled self tid (Suc k) r0 s0 r s'"
              by (simp add: first_settled_Suc)
            with Pair Inr show ?thesis by auto
          qed
        qed
      qed
    qed
  qed
qed

lemma poll_first_settled:
  "poll self tid r0 s0 = Some (Inr r, s') \<Longrightarrow> \<exists>k. first_settled self tid k r0 s0 r s'"
  using poll_first_settled_aux [of self tid r0 s0 "(Inr r, s')"] by simp

lemma first_settled_poll:
  "first_settled self tid k r0 s0 r s' \<Longrightarrow> poll self tid r0 s0 = Some (Inr r, s')"
proof (induction k arbitrary: r0 s0)
  case 0
  then show ?case by (subst poll.simps) (simp add: first_settled_0 busy_def)
next
  case (Suc k)
  from Suc.prems obtain rn sn where b: "busy r0"
    and step: "runs_retrieve self tid (run_id r0) s0 = (Inr rn, sn)"
    and left: "first_settled self tid k rn sn r s'"
    unfolding first_settled_Suc by blast
  from Suc.IH [OF left] b step show ?case by (subst poll.simps) (simp add: busy_def)
qed

lemma settles_first_settled:
  "settles self tid n r0 s0 \<Longrightarrow> \<exists>k r s'. k \<le> n \<and> first_settled self tid k r0 s0 r s'"
proof (induction n arbitrary: r0 s0)
  case 0
  then have "first_settled self tid 0 r0 s0 r0 s0" by (simp add: first_settled_0)
  then show ?case by blast
next
  case (Suc n)
  show ?case
  proof (cases "busy r0")
    case False
    then have "first_settled self tid 0 r0 s0 r0 s0" by (simp add: first_settled_0)
    then show ?thesis by blast
  next
    case True
    with Suc.prems obtain rn sn where
      step: "runs_retrieve self tid (run_id r0) s0 = (Inr rn, sn)"
      and left: "settles self tid n rn sn"
      by (auto split: prod.splits sum.splits)
    from Suc.IH [OF left] obtain k r s' where "k \<le> n" "first_settled self tid k rn sn r s'"
      by blast
    with True step have "Suc k \<le> Suc n" "first_settled self tid (Suc k) r0 s0 r s'"
      by (simp_all add: first_settled_Suc)
    then show ?thesis by blast
  qed
qed

lemma wait_for_response_first_settled:
  "wait_for_response self tid s = Some (Inr r, s') \<longleftrightarrow>
     (\<exists>a r0 s0 k. assistant self = Some a
        \<and> runs_create self tid (assistant_id a) s = (Inr r0, s0)
        \<and> first_settled self tid k r0 s0 r s')"
proof
  assume "wait_for_response self tid s = Some (Inr r, s')"
  then obtain a r0 s0 where "assistant self = Some a"
    "runs_create self tid (assistant_id a) s = (Inr r0, s0)"
    "poll self tid r0 s0 = Some (Inr r, s')"
    by (auto simp: wait_for_response_def raise_def bind_returns await_returns
        split: option.splits)
  with poll_first_settled [of self tid r0 s0 r s']
  show "\<exists>a r0 s0 k. assistant self = Some a
        \<and> runs_create self tid (assistant_id a) s = (Inr r0, s0)
        \<and> first_settled self tid k r0 s0 r s'" by blast
next
  assume "\<exists>a r0 s0 k. assistant self = Some a
        \<and> runs_create self tid (assistant_id a) s = (Inr r0, s0)
        \<and> first_settled self tid k r0 s0 r s'"
  then obtain a r0 s0 k where "assistant self = Some a"
    "runs_create self tid (assistant_id a) s = (Inr r0, s0)"
    "first_settled self tid k r0 s0 r s'" by blast
  with first_settled_poll [of self tid k r0 s0 r s']
  show "wait_for_response self tid s = Some (Inr r, s')"
    by (simp add: wait_for_response_def bind_returns await_returns)
qed

text \<open>
  C6. \<open>wait_for_response\<close> creates a run and polls it, and returns only once the status
  has left \<open>queued\<close> and \<open>in_progress\<close>: whenever it returns a run, the status of that
  run is neither of the two, and the run and the service state it returns are the
  first report of the run it created, by \<^verbatim>\<open>runs.create\<close> for its assistant, that has
  such a status. Conversely, when the run is created and has such a first report,
  \<open>wait_for_response\<close> returns that report. And if the service reports such a status
  within some number \<open>n\<close> of polls (the run is created and every poll up to there
  returns a run), the loop ends after at most \<open>n\<close> polls and \<open>wait_for_response\<close>
  returns that first report, with a status that is neither \<open>queued\<close> nor \<open>in_progress\<close>.
\<close>

theorem wait_for_response_returns:
  "(\<forall>r s'. wait_for_response self tid s = Some (Inr r, s') \<longrightarrow>
       status r \<noteq> ''queued'' \<and> status r \<noteq> ''in_progress''
       \<and> (\<exists>a r0 s0 k. assistant self = Some a
             \<and> runs_create self tid (assistant_id a) s = (Inr r0, s0)
             \<and> first_settled self tid k r0 s0 r s'))
   \<and> (\<forall>a r0 s0 k r s'. assistant self = Some a
          \<and> runs_create self tid (assistant_id a) s = (Inr r0, s0)
          \<and> first_settled self tid k r0 s0 r s'
        \<longrightarrow> wait_for_response self tid s = Some (Inr r, s'))
   \<and> (eventually_reports self tid n s \<longrightarrow>
        (\<exists>a r0 s0 k r s'. k \<le> n \<and> assistant self = Some a
               \<and> runs_create self tid (assistant_id a) s = (Inr r0, s0)
               \<and> first_settled self tid k r0 s0 r s'
               \<and> wait_for_response self tid s = Some (Inr r, s')
               \<and> status r \<noteq> ''queued'' \<and> status r \<noteq> ''in_progress''))"
proof (intro conjI allI impI)
  fix r s'
  assume w: "wait_for_response self tid s = Some (Inr r, s')"
  then show tie: "\<exists>a r0 s0 k. assistant self = Some a
             \<and> runs_create self tid (assistant_id a) s = (Inr r0, s0)
             \<and> first_settled self tid k r0 s0 r s'"
    by (simp only: wait_for_response_first_settled)
  then have "\<not> busy r" by (auto simp: first_settled_def)
  then show "status r \<noteq> ''queued''" and "status r \<noteq> ''in_progress''"
    by (simp_all add: busy_def)
next
  fix a r0 s0 k r s'
  assume "assistant self = Some a
          \<and> runs_create self tid (assistant_id a) s = (Inr r0, s0)
          \<and> first_settled self tid k r0 s0 r s'"
  then show "wait_for_response self tid s = Some (Inr r, s')"
    unfolding wait_for_response_first_settled by blast
next
  assume ev: "eventually_reports self tid n s"
  then obtain a r0 s0 where a: "assistant self = Some a"
    and c: "runs_create self tid (assistant_id a) s = (Inr r0, s0)"
    and st: "settles self tid n r0 s0"
    by (auto simp: eventually_reports_def split: option.splits prod.splits sum.splits)
  from settles_first_settled [OF st] obtain k r s' where k: "k \<le> n"
    and fs: "first_settled self tid k r0 s0 r s'" by blast
  from a c fs have w: "wait_for_response self tid s = Some (Inr r, s')"
    unfolding wait_for_response_first_settled by blast
  from fs have "\<not> busy r" by (simp add: first_settled_def)
  then have "status r \<noteq> ''queued'' \<and> status r \<noteq> ''in_progress''" by (simp add: busy_def)
  with k a c fs w
  show "\<exists>a r0 s0 k r s'. k \<le> n \<and> assistant self = Some a
               \<and> runs_create self tid (assistant_id a) s = (Inr r0, s0)
               \<and> first_settled self tid k r0 s0 r s'
               \<and> wait_for_response self tid s = Some (Inr r, s')
               \<and> status r \<noteq> ''queued'' \<and> status r \<noteq> ''in_progress''"
    by blast
qed

theorem wait_for_response_returns_witness:
  "eventually_reports (scripted_tale fails_on_b echo never [''a'']) ''t'' 2
      [\<lparr>name = ''t'', posted = [''T:a.''], polls = 0, deleted = False\<rparr>]
   \<and> assistant (scripted_tale fails_on_b echo never [''a'']) = Some \<lparr>assistant_id = ''a''\<rparr>
   \<and> runs_create (scripted_tale fails_on_b echo never [''a'']) ''t'' ''a''
        [\<lparr>name = ''t'', posted = [''T:a.''], polls = 0, deleted = False\<rparr>]
       = (Inr \<lparr>run_id = ''r'', status = ''queued''\<rparr>,
          [\<lparr>name = ''t'', posted = [''T:a.''], polls = 0, deleted = False\<rparr>])
   \<and> report (scripted_tale fails_on_b echo never [''a'']) ''t'' 1
        \<lparr>run_id = ''r'', status = ''queued''\<rparr>
        [\<lparr>name = ''t'', posted = [''T:a.''], polls = 0, deleted = False\<rparr>]
       = Some (\<lparr>run_id = ''r'', status = ''in_progress''\<rparr>,
               [\<lparr>name = ''t'', posted = [''T:a.''], polls = 1, deleted = False\<rparr>])
   \<and> first_settled (scripted_tale fails_on_b echo never [''a'']) ''t'' 2
        \<lparr>run_id = ''r'', status = ''queued''\<rparr>
        [\<lparr>name = ''t'', posted = [''T:a.''], polls = 0, deleted = False\<rparr>]
        \<lparr>run_id = ''r'', status = ''completed''\<rparr>
        [\<lparr>name = ''t'', posted = [''T:a.''], polls = 2, deleted = False\<rparr>]
   \<and> wait_for_response (scripted_tale fails_on_b echo never [''a'']) ''t''
        [\<lparr>name = ''t'', posted = [''T:a.''], polls = 0, deleted = False\<rparr>]
       = Some (Inr \<lparr>run_id = ''r'', status = ''completed''\<rparr>,
               [\<lparr>name = ''t'', posted = [''T:a.''], polls = 2, deleted = False\<rparr>])
   \<and> status \<lparr>run_id = ''r'', status = ''completed''\<rparr> \<noteq> ''queued''
   \<and> status \<lparr>run_id = ''r'', status = ''completed''\<rparr> \<noteq> ''in_progress''"
proof -
  have pre: "eventually_reports (scripted_tale fails_on_b echo never [''a'']) ''t'' 2
      [\<lparr>name = ''t'', posted = [''T:a.''], polls = 0, deleted = False\<rparr>]"
    by code_simp
  have a: "assistant (scripted_tale fails_on_b echo never [''a''])
             = Some \<lparr>assistant_id = ''a''\<rparr>"
    by code_simp
  have c: "runs_create (scripted_tale fails_on_b echo never [''a'']) ''t''
             (assistant_id \<lparr>assistant_id = ''a''\<rparr>)
        [\<lparr>name = ''t'', posted = [''T:a.''], polls = 0, deleted = False\<rparr>]
       = (Inr \<lparr>run_id = ''r'', status = ''queued''\<rparr>,
          [\<lparr>name = ''t'', posted = [''T:a.''], polls = 0, deleted = False\<rparr>])"
    by code_simp
  have one: "report (scripted_tale fails_on_b echo never [''a'']) ''t'' 1
        \<lparr>run_id = ''r'', status = ''queued''\<rparr>
        [\<lparr>name = ''t'', posted = [''T:a.''], polls = 0, deleted = False\<rparr>]
       = Some (\<lparr>run_id = ''r'', status = ''in_progress''\<rparr>,
               [\<lparr>name = ''t'', posted = [''T:a.''], polls = 1, deleted = False\<rparr>])"
    by code_simp
  have fs: "first_settled (scripted_tale fails_on_b echo never [''a'']) ''t'' 2
        \<lparr>run_id = ''r'', status = ''queued''\<rparr>
        [\<lparr>name = ''t'', posted = [''T:a.''], polls = 0, deleted = False\<rparr>]
        \<lparr>run_id = ''r'', status = ''completed''\<rparr>
        [\<lparr>name = ''t'', posted = [''T:a.''], polls = 2, deleted = False\<rparr>]"
    by code_simp
  note inst = wait_for_response_returns
      [of "scripted_tale fails_on_b echo never [''a'']" "''t''"
          "[\<lparr>name = ''t'', posted = [''T:a.''], polls = 0, deleted = False\<rparr>]" 2]
  from inst a c fs
  have w: "wait_for_response (scripted_tale fails_on_b echo never [''a'']) ''t''
        [\<lparr>name = ''t'', posted = [''T:a.''], polls = 0, deleted = False\<rparr>]
       = Some (Inr \<lparr>run_id = ''r'', status = ''completed''\<rparr>,
               [\<lparr>name = ''t'', posted = [''T:a.''], polls = 2, deleted = False\<rparr>])"
    by blast
  from inst w
  have st: "status \<lparr>run_id = ''r'', status = ''completed''\<rparr> \<noteq> ''queued''
          \<and> status \<lparr>run_id = ''r'', status = ''completed''\<rparr> \<noteq> ''in_progress''"
    by blast
  from c have c': "runs_create (scripted_tale fails_on_b echo never [''a'']) ''t'' ''a''
        [\<lparr>name = ''t'', posted = [''T:a.''], polls = 0, deleted = False\<rparr>]
       = (Inr \<lparr>run_id = ''r'', status = ''queued''\<rparr>,
          [\<lparr>name = ''t'', posted = [''T:a.''], polls = 0, deleted = False\<rparr>])"
    by simp
  from pre a c' one fs w st show ?thesis by (intro conjI) simp_all
qed

section \<open>Properties of get_fairy_tale, run on its own\<close>

lemma add_message_returns:
  "add_message self tid msg s = Some (Inr u, s')
     \<longleftrightarrow> messages_create self tid ''user'' msg s = (Inr u, s')"
  by (simp add: add_message_def await_returns)

text \<open>What a call that returns has gone through.\<close>

lemma get_fairy_tale_returns:
  "get_fairy_tale self first_prompt second_prompt s = Some (Inr res, s') \<longleftrightarrow>
     (\<exists>thread s1 s2 run1 s3 s4 run2 s5 messages s6.
        threads_create self s = (Inr thread, s1)
      \<and> messages_create self (thread_id thread) ''user'' first_prompt s1 = (Inr (), s2)
      \<and> wait_for_response self (thread_id thread) s2 = Some (Inr run1, s3)
      \<and> messages_create self (thread_id thread) ''user'' second_prompt s3 = (Inr (), s4)
      \<and> wait_for_response self (thread_id thread) s4 = Some (Inr run2, s5)
      \<and> messages_list self (thread_id thread) ''asc'' s5 = (Inr messages, s6)
      \<and> threads_delete self (thread_id thread) s6 = (Inr (), s')
      \<and> res = finish run1 run2 messages)"
  unfolding get_fairy_tale_def bind_returns await_returns add_message_returns return_returns
  by auto

text \<open>
  C3. When \<open>get_fairy_tale\<close> returns, its value is a result (not None) exactly when
  both runs it waited for, the one before and the one after the second message, came
  back with the status \<open>completed\<close>; with any other status of either run it is None.
\<close>

theorem get_fairy_tale_result:
  assumes "get_fairy_tale self first_prompt second_prompt s = Some (Inr res, s')"
  shows "\<exists>(thread :: thread) s2 run1 s3 s4 run2 s5.
           wait_for_response self (thread_id thread) s2 = Some (Inr run1, s3)
         \<and> messages_create self (thread_id thread) ''user'' second_prompt s3 = (Inr (), s4)
         \<and> wait_for_response self (thread_id thread) s4 = Some (Inr run2, s5)
         \<and> (res \<noteq> None \<longleftrightarrow> status run1 = ''completed'' \<and> status run2 = ''completed'')"
proof -
  from assms [unfolded get_fairy_tale_returns]
  obtain thread s1 s2 run1 s3 s4 run2 s5 messages s6 where
    "threads_create self s = (Inr thread, s1)"
    "messages_create self (thread_id thread) ''user'' first_prompt s1 = (Inr (), s2)"
    and w1: "wait_for_response self (thread_id thread) s2 = Some (Inr run1, s3)"
    and m2: "messages_create self (thread_id thread) ''user'' second_prompt s3 = (Inr (), s4)"
    and w2: "wait_for_response self (thread_id thread) s4 = Some (Inr run2, s5)"
    and "messages_list self (thread_id thread) ''asc'' s5 = (Inr messages, s6)"
    "threads_delete self (thread_id thread) s6 = (Inr (), s')"
    and res: "res = finish run1 run2 messages"
    by blast
  from res have "res \<noteq> None \<longleftrightarrow> status run1 = ''completed'' \<and> status run2 = ''completed''"
    by (simp add: finish_def)
  with w1 m2 w2 show ?thesis by blast
qed

theorem get_fairy_tale_result_witness:
  "get_fairy_tale (scripted_tale fails_on_b echo never [''a'']) ''T:a.'' ''Q'' []
     = Some (Inr (Some
         [\<lparr>role = ''user'', content = [Text_block ''T:a.'']\<rparr>,
          \<lparr>role = ''assistant'', content = [Text_block ''re T:a.'']\<rparr>,
          \<lparr>role = ''user'', content = [Text_block ''Q'']\<rparr>,
          \<lparr>role = ''assistant'', content = [Text_block ''re Q'']\<rparr>]),
        [\<lparr>name = ''t'', posted = [''T:a.'', ''Q''], polls = 2, deleted = True\<rparr>])
   \<and> (\<exists>(thread :: thread) s2 run1 s3 s4 run2 s5.
         wait_for_response (scripted_tale fails_on_b echo never [''a'']) (thread_id thread) s2
           = Some (Inr run1, s3)
       \<and> wait_for_response (scripted_tale fails_on_b echo never [''a'']) (thread_id thread) s4
           = Some (Inr run2, s5)
       \<and> status run1 = ''completed'' \<and> status run2 = ''completed'')"
proof -
  have e: "get_fairy_tale (scripted_tale fails_on_b echo never [''a'']) ''T:a.'' ''Q'' []
     = Some (Inr (Some
         [\<lparr>role = ''user'', content = [Text_block ''T:a.'']\<rparr>,
          \<lparr>role = ''assistant'', content = [Text_block ''re T:a.'']\<rparr>,
          \<lparr>role = ''user'', content = [Text_block ''Q'']\<rparr>,
          \<lparr>role = ''assistant'', content = [Text_block ''re Q'']\<rparr>]),
        [\<lparr>name = ''t'', posted = [''T:a.'', ''Q''], polls = 2, deleted = True\<rparr>])"
    by code_simp
  from get_fairy_tale_result [OF e]
  obtain thread :: thread and s2 run1 s3 s4 run2 s5 where
    w1: "wait_for_response (scripted_tale fails_on_b echo never [''a'']) (thread_id thread) s2
           = Some (Inr run1, s3)"
    and w2: "wait_for_response (scripted_tale fails_on_b echo never [''a'']) (thread_id thread) s4
           = Some (Inr run2, s5)"
    and st: "status run1 = ''completed'' \<and> status run2 = ''completed''"
    by auto
  from w1 w2 st have "\<exists>(thread :: thread) s2 run1 s3 s4 run2 s5.
         wait_for_response (scripted_tale fails_on_b echo never [''a'']) (thread_id thread) s2
           = Some (Inr run1, s3)
       \<and> wait_for_response (scripted_tale fails_on_b echo never [''a'']) (thread_id thread) s4
           = Some (Inr run2, s5)
       \<and> status run1 = ''completed'' \<and> status run2 = ''completed''"
    by blast
  with e show ?thesis by (rule conjI)
qed

text \<open>
  C5 (amended). Whenever \<open>get_fairy_tale\<close> returns, with a result or with None after a
  run that did not complete, the thread it created at its start has been deleted: its
  last remote call is the deletion of that thread, and the call succeeded.
\<close>

theorem get_fairy_tale_deletes_thread:
  assumes "get_fairy_tale self first_prompt second_prompt s = Some (Inr res, s')"
  shows "\<exists>thread s1 s6. threads_create self s = (Inr thread, s1)
           \<and> threads_delete self (thread_id thread) s6 = (Inr (), s')"
  using assms unfolding get_fairy_tale_returns by blast

theorem get_fairy_tale_deletes_thread_witness:
  "get_fairy_tale (scripted_tale fails_on_b echo never [''b'']) ''T:b.'' ''Q'' []
     = Some (Inr None, [\<lparr>name = ''t'', posted = [''T:b.'', ''Q''], polls = 2, deleted = True\<rparr>])
   \<and> (\<exists>thread s1 s6.
         threads_create (scripted_tale fails_on_b echo never [''b'']) [] = (Inr thread, s1)
       \<and> threads_delete (scripted_tale fails_on_b echo never [''b'']) (thread_id thread) s6
           = (Inr (), [\<lparr>name = ''t'', posted = [''T:b.'', ''Q''], polls = 2, deleted = True\<rparr>]))"
proof -
  have e: "get_fairy_tale (scripted_tale fails_on_b echo never [''b'']) ''T:b.'' ''Q'' []
     = Some (Inr None, [\<lparr>name = ''t'', posted = [''T:b.'', ''Q''], polls = 2, deleted = True\<rparr>])"
    by code_simp
  from get_fairy_tale_deletes_thread [OF e] e show ?thesis by simp
qed

text \<open>
  C5 as stated fails: when posting the second message raises, the exception leaves
  \<open>get_fairy_tale\<close> and the thread created at its start is still there.
\<close>

theorem get_fairy_tale_leaks_thread_counterexample:
  "get_fairy_tale (scripted_tale fails_on_b echo (\<lambda>msg. msg = ''Q'') [''a'']) ''T:a.'' ''Q'' []
     = Some (Inl OpenAIError,
        [\<lparr>name = ''t'', posted = [''T:a.''], polls = 2, deleted = False\<rparr>])"
  by code_simp

lemma tuple_texts:
  "tuple ms = Inr vs \<Longrightarrow>
     map text_value (filter (\<lambda>m. role m = ''assistant'') ms) = map Inr vs"
  by (induction ms arbitrary: vs) (auto split: if_splits sum.splits)

text \<open>
  C10. The value \<open>get_fairy_tale\<close> returns on success is the list of messages that
  \<^verbatim>\<open>messages.list\<close> gave for the thread with the order \<open>asc\<close>, and the tuple made
  from it holds the texts of the messages of role \<open>assistant\<close>, all of them and in the
  order of that list. So the tuple has as many elements as the thread has assistant
  messages, two or not.
\<close>

theorem get_fairy_tale_success_value:
  "(get_fairy_tale self first_prompt second_prompt s = Some (Inr (Some ms), s') \<longrightarrow>
      (\<exists>(thread :: thread) s5 s6. messages_list self (thread_id thread) ''asc'' s5 = (Inr ms, s6)))
   \<and> (tuple ms = Inr vs \<longrightarrow>
        map text_value (filter (\<lambda>m. role m = ''assistant'') ms) = map Inr vs
      \<and> length vs = length (filter (\<lambda>m. role m = ''assistant'') ms))"
proof (intro conjI impI)
  assume "get_fairy_tale self first_prompt second_prompt s = Some (Inr (Some ms), s')"
  then obtain thread :: thread and s5 messages s6 run1 run2 where
    l: "messages_list self (thread_id thread) ''asc'' s5 = (Inr messages, s6)"
    and f: "Some ms = finish run1 run2 messages"
    unfolding get_fairy_tale_returns by blast
  from f have "messages = ms" by (auto simp: finish_def split: if_splits)
  with l show "\<exists>(thread :: thread) s5 s6.
      messages_list self (thread_id thread) ''asc'' s5 = (Inr ms, s6)"
    by blast
next
  assume t: "tuple ms = Inr vs"
  then show m: "map text_value (filter (\<lambda>m. role m = ''assistant'') ms) = map Inr vs"
    by (rule tuple_texts)
  from arg_cong [OF m, of length]
  show "length vs = length (filter (\<lambda>m. role m = ''assistant'') ms)" by simp
qed

theorem get_fairy_tale_success_value_witness:
  "get_fairy_tale (scripted_tale fails_on_b twice never [''a'']) ''T:a.'' ''Q'' []
     = Some (Inr (Some
         [\<lparr>role = ''user'', content = [Text_block ''T:a.'']\<rparr>,
          \<lparr>role = ''assistant'', content = [Text_block ''Once'']\<rparr>,
          \<lparr>role = ''assistant'', content = [Text_block ''upon'']\<rparr>,
          \<lparr>role = ''user'', content = [Text_block ''Q'']\<rparr>,
          \<lparr>role = ''assistant'', content = [Text_block ''Title'']\<rparr>]),
        [\<lparr>name = ''t'', posted = [''T:a.'', ''Q''], polls = 2, deleted = True\<rparr>])
   \<and> (\<exists>(thread :: thread) s5 s6.
         messages_list (scripted_tale fails_on_b twice never [''a'']) (thread_id thread) ''asc'' s5
           = (Inr [\<lparr>role = ''user'', content = [Text_block ''T:a.'']\<rparr>,
                   \<lparr>role = ''assistant'', content = [Text_block ''Once'']\<rparr>,
                   \<lparr>role = ''assistant'', content = [Text_block ''upon'']\<rparr>,
                   \<lparr>role = ''user'', content = [Text_block ''Q'']\<rparr>,
                   \<lparr>role = ''assistant'', content = [Text_block ''Title'']\<rparr>], s6))
   \<and> tuple [\<lparr>role = ''user'', content = [Text_block ''T:a.'']\<rparr>,
             \<lparr>role = ''assistant'', content = [Text_block ''Once'']\<rparr>,
             \<lparr>role = ''assistant'', content = [Text_block ''upon'']\<rparr>,
             \<lparr>role = ''user'', content = [Text_block ''Q'']\<rparr>,
             \<lparr>role = ''assistant'', content = [Text_block ''Title'']\<rparr>]
       = Inr [''Once'', ''upon'', ''Title'']
   \<and> write_fairy_tales (scripted_tale fails_on_b twice never [''a'']) ''T:'' ''Q''
         (replicate 15 0) []
       = Some (Inr [[''Once'', ''upon'', ''Title'']],
           [\<lparr>name = ''t'', posted = [''T:a.'', ''Q''], polls = 2, deleted = True\<rparr>])"
proof -
  let ?ms = "[\<lparr>role = ''user'', content = [Text_block ''T:a.'']\<rparr>,
              \<lparr>role = ''assistant'', content = [Text_block ''Once'']\<rparr>,
              \<lparr>role = ''assistant'', content = [Text_block ''upon'']\<rparr>,
              \<lparr>role = ''user'', content = [Text_block ''Q'']\<rparr>,
              \<lparr>role = ''assistant'', content = [Text_block ''Title'']\<rparr>]"
  have e: "get_fairy_tale (scripted_tale fails_on_b twice never [''a'']) ''T:a.'' ''Q'' []
     = Some (Inr (Some ?ms),
        [\<lparr>name = ''t'', posted = [''T:a.'', ''Q''], polls = 2, deleted = True\<rparr>])"
    by code_simp
  have t: "tuple ?ms = Inr [''Once'', ''upon'', ''Title'']"
    by code_simp
  have w: "write_fairy_tales (scripted_tale fails_on_b twice never [''a'']) ''T:'' ''Q''
         (replicate 15 0) []
       = Some (Inr [[''Once'', ''upon'', ''Title'']],
           [\<lparr>name = ''t'', posted = [''T:a.'', ''Q''], polls = 2, deleted = True\<rparr>])"
    by code_simp
  from get_fairy_tale_success_value
    [of "scripted_tale fails_on_b twice never [''a'']" "''T:a.''" "''Q''" "[]" ?ms
        "[\<lparr>name = ''t'', posted = [''T:a.'', ''Q''], polls = 2, deleted = True\<rparr>]"
        "[''Once'', ''upon'', ''Title'']"] e
  have "\<exists>(thread :: thread) s5 s6.
         messages_list (scripted_tale fails_on_b twice never [''a'']) (thread_id thread) ''asc'' s5
           = (Inr ?ms, s6)"
    by blast
  with e t w show ?thesis by blast
qed

section \<open>The two readings of a pipeline agree\<close>

text \<open>
  A task resumed again and again on a service nobody else uses ends as
  \<open>get_fairy_tale\<close> says, and only so. First from the function to the steps, by
  the induction rule of the polling loop.
\<close>

lemma run_alone_add:
  "run_alone self (n + m) t s =
     (case run_alone self n t s of (t', s') \<Rightarrow> run_alone self m t' s')"
  by (induction n arbitrary: t s) (auto split: prod.splits)

lemma run_alone_trans:
  "run_alone self n t s = (t1, s1) \<Longrightarrow> run_alone self m t1 s1 = (t2, s2)
     \<Longrightarrow> run_alone self (n + m) t s = (t2, s2)"
  by (simp add: run_alone_add)

lemma waits_in_wait1: "waits_in self p1 p2 (thread_id th) (At_wait1 th) (At_add_message2 th)"
  by (auto simp: waits_in_def after_test_def split: prod.splits coroutine.splits)

lemma waits_in_wait2:
  "waits_in self p1 p2 (thread_id th) (At_wait2 th ra) (At_messages_list th ra)"
  by (auto simp: waits_in_def after_test_def split: prod.splits coroutine.splits)

lemma poll_run_alone_aux:
  "poll self tid r s = Some y \<Longrightarrow>
     (\<forall>p1 p2 emb cont. waits_in self p1 p2 tid emb cont \<longrightarrow>
        (\<exists>n. run_alone self n
                \<lparr>first_arg = p1, second_arg = p2, at = after_test emb cont (while_test r)\<rparr> s
              = (\<lparr>first_arg = p1, second_arg = p2, at = outcome cont (fst y)\<rparr>, snd y)))"
proof (induction rule: poll.raw_induct [rotated 1, consumes 1])
  case (1 f self tid r s y)
  show ?case
  proof (intro allI impI)
    fix p1 p2 emb cont
    assume w: "waits_in self p1 p2 tid emb cont"
    let ?t = "\<lambda>c. \<lparr>first_arg = p1, second_arg = p2, at = c\<rparr>"
    show "\<exists>n. run_alone self n (?t (after_test emb cont (while_test r))) s
              = (?t (outcome cont (fst y)), snd y)"
    proof (cases "status r = ''queued'' \<or> status r = ''in_progress''")
      case False
      with 1(2) have "y = (Inr r, s)" by auto
      with False have "run_alone self 0 (?t (after_test emb cont (while_test r))) s
              = (?t (outcome cont (fst y)), snd y)"
        by (auto simp: while_test_def after_test_def outcome_def)
      then show ?thesis by blast
    next
      case True
      then have start: "after_test emb cont (while_test r) = Suspended (emb (At_runs_retrieve r))"
        by (auto simp: while_test_def after_test_def)
      show ?thesis
      proof (cases "runs_retrieve self tid (run_id r) s")
        case (Pair a sn)
        show ?thesis
        proof (cases a)
          case (Inl e)
          with 1(2) True Pair have y: "y = (Inl e, sn)" by auto
          from w Pair Inl have "task_step self (?t (Suspended (emb (At_runs_retrieve r)))) s
                = (?t (Raised e), sn)"
            by (simp add: task_step_def waits_in_def after_test_def)
          then have "run_alone self (Suc 0) (?t (Suspended (emb (At_runs_retrieve r)))) s
                = (?t (Raised e), sn)" by simp
          with y start show ?thesis unfolding outcome_def by (intro exI [of _ "Suc 0"]) simp
        next
          case (Inr rn)
          with 1(2) True Pair have "f self tid rn sn = Some y" by auto
          from 1(1) [OF this] w obtain n where
            n: "run_alone self n (?t (after_test emb cont (while_test rn))) sn
                  = (?t (outcome cont (fst y)), snd y)" by blast
          from w Pair Inr have a1: "task_step self (?t (Suspended (emb (At_runs_retrieve r)))) s
                = (?t (Suspended (emb (At_sleep rn))), sn)"
            by (simp add: task_step_def waits_in_def after_test_def)
          from w have a2: "task_step self (?t (Suspended (emb (At_sleep rn)))) sn
                = (?t (after_test emb cont (while_test rn)), sn)"
            by (simp add: task_step_def waits_in_def)
          from a1 a2 n start
          have "run_alone self (Suc (Suc n)) (?t (after_test emb cont (while_test r))) s
                  = (?t (outcome cont (fst y)), snd y)" by simp
          then show ?thesis by blast
        qed
      qed
    qed
  qed
qed

lemma wait_for_response_run_alone:
  assumes "wait_for_response self tid s = Some (res, s')"
    and "waits_in self p1 p2 tid emb cont"
  shows "\<exists>n. run_alone self n
                \<lparr>first_arg = p1, second_arg = p2, at = Suspended (emb At_runs_create)\<rparr> s
              = (\<lparr>first_arg = p1, second_arg = p2, at = outcome cont res\<rparr>, s')"
proof -
  let ?t = "\<lambda>c. \<lparr>first_arg = p1, second_arg = p2, at = c\<rparr>"
  show ?thesis
  proof (cases "assistant self")
    case None
    with assms(1) have "res = Inl AttributeError" "s' = s"
      by (auto simp: wait_for_response_def raise_def)
    moreover from None assms(2) have "task_step self (?t (Suspended (emb At_runs_create))) s
        = (?t (Raised AttributeError), s)"
      by (simp add: task_step_def waits_in_def after_test_def)
    ultimately have "run_alone self (Suc 0) (?t (Suspended (emb At_runs_create))) s
        = (?t (outcome cont res), s')" by (simp add: outcome_def)
    then show ?thesis by blast
  next
    case (Some a)
    show ?thesis
    proof (cases "runs_create self tid (assistant_id a) s")
      case (Pair x sn)
      show ?thesis
      proof (cases x)
        case (Inl e)
        with Some Pair assms(1) have "res = Inl e" "s' = sn"
          by (auto simp: wait_for_response_def bind_def await_def)
        moreover from Some Pair Inl assms(2)
        have "task_step self (?t (Suspended (emb At_runs_create))) s = (?t (Raised e), sn)"
          by (simp add: task_step_def waits_in_def after_test_def)
        ultimately have "run_alone self (Suc 0) (?t (Suspended (emb At_runs_create))) s
            = (?t (outcome cont res), s')" by (simp add: outcome_def)
        then show ?thesis by blast
      next
        case (Inr r)
        with Some Pair assms(1) have "poll self tid r sn = Some (res, s')"
          by (auto simp: wait_for_response_def bind_def await_def)
        from poll_run_alone_aux [OF this] assms(2) obtain n where
          n: "run_alone self n (?t (after_test emb cont (while_test r))) sn
                = (?t (outcome cont res), s')" by fastforce
        from Some Pair Inr assms(2)
        have "task_step self (?t (Suspended (emb At_runs_create))) s
                = (?t (after_test emb cont (while_test r)), sn)"
          by (simp add: task_step_def waits_in_def)
        with n have "run_alone self (Suc n) (?t (Suspended (emb At_runs_create))) s
                = (?t (outcome cont res), s')" by simp
        then show ?thesis by blast
      qed
    qed
  qed
qed

lemma await_bind_run_alone:
  assumes step: "\<And>s. get_fairy_tale_step self p1 p2 p s =
            (case remote s of
               (Inl e, s') \<Rightarrow> (Raised e, s')
             | (Inr x, s') \<Rightarrow> (Suspended (k x), s'))"
    and left: "\<And>x sn. f x sn = Some (res, s') \<Longrightarrow>
            \<exists>n. run_alone self n \<lparr>first_arg = p1, second_arg = p2, at = Suspended (k x)\<rparr> sn
                  = (\<lparr>first_arg = p1, second_arg = p2, at = ended res\<rparr>, s')"
    and run: "bind (await remote) f s = Some (res, s')"
  shows "\<exists>n. run_alone self n \<lparr>first_arg = p1, second_arg = p2, at = Suspended p\<rparr> s
                  = (\<lparr>first_arg = p1, second_arg = p2, at = ended res\<rparr>, s')"
proof -
  let ?t = "\<lambda>c. \<lparr>first_arg = p1, second_arg = p2, at = c\<rparr>"
  from run consider (raised) e where "remote s = (Inl e, s')" "res = Inl e"
    | (returned) x sn where "remote s = (Inr x, sn)" "f x sn = Some (res, s')"
    by (auto simp: bind_cases await_def)
  then show ?thesis
  proof cases
    case raised
    with step [of s] have "run_alone self (Suc 0) (?t (Suspended p)) s = (?t (ended res), s')"
      by (simp add: task_step_def ended_def)
    then show ?thesis by blast
  next
    case returned
    from left [OF returned(2)] obtain n where
      "run_alone self n (?t (Suspended (k x))) sn = (?t (ended res), s')" by blast
    with returned(1) step [of s]
    have "run_alone self (Suc n) (?t (Suspended p)) s = (?t (ended res), s')"
      by (simp add: task_step_def)
    then show ?thesis by blast
  qed
qed

lemma await_return_run_alone:
  assumes step: "\<And>s. get_fairy_tale_step self p1 p2 p s =
            (case remote s of
               (Inl e, s') \<Rightarrow> (Raised e, s')
             | (Inr x, s') \<Rightarrow> (Returned v, s'))"
    and run: "bind (await remote) (\<lambda>x. return v) s = Some (res, s')"
  shows "\<exists>n. run_alone self n \<lparr>first_arg = p1, second_arg = p2, at = Suspended p\<rparr> s
                  = (\<lparr>first_arg = p1, second_arg = p2, at = ended res\<rparr>, s')"
proof -
  from run step [of s]
  have "run_alone self (Suc 0) \<lparr>first_arg = p1, second_arg = p2, at = Suspended p\<rparr> s
                  = (\<lparr>first_arg = p1, second_arg = p2, at = ended res\<rparr>, s')"
    by (auto simp: bind_cases await_def return_def task_step_def ended_def)
  then show ?thesis by blast
qed

lemma wait_bind_run_alone:
  assumes w: "waits_in self p1 p2 tid emb cont"
    and left: "\<And>r sn. f r sn = Some (res, s') \<Longrightarrow>
            \<exists>n. run_alone self n \<lparr>first_arg = p1, second_arg = p2, at = Suspended (cont r)\<rparr> sn
                  = (\<lparr>first_arg = p1, second_arg = p2, at = ended res\<rparr>, s')"
    and run: "bind (wait_for_response self tid) f s = Some (res, s')"
  shows "\<exists>n. run_alone self n
                \<lparr>first_arg = p1, second_arg = p2, at = Suspended (emb At_runs_create)\<rparr> s
              = (\<lparr>first_arg = p1, second_arg = p2, at = ended res\<rparr>, s')"
proof -
  let ?t = "\<lambda>c. \<lparr>first_arg = p1, second_arg = p2, at = c\<rparr>"
  from run consider
    (raised) e where "wait_for_response self tid s = Some (Inl e, s')" "res = Inl e"
    | (returned) r sn where "wait_for_response self tid s = Some (Inr r, sn)"
        "f r sn = Some (res, s')"
    by (auto simp: bind_cases)
  then show ?thesis
  proof cases
    case raised
    from wait_for_response_run_alone [OF raised(1) w] raised(2)
    show ?thesis by (simp add: outcome_def ended_def)
  next
    case returned
    from wait_for_response_run_alone [OF returned(1) w] obtain n where
      n: "run_alone self n (?t (Suspended (emb At_runs_create))) s
            = (?t (Suspended (cont r)), sn)"
      by (auto simp: outcome_def)
    from left [OF returned(2)] obtain m where
      "run_alone self m (?t (Suspended (cont r))) sn = (?t (ended res), s')" by blast
    from run_alone_trans [OF n this] show ?thesis by blast
  qed
qed

lemma get_fairy_tale_run_alone:
  assumes "get_fairy_tale self first_prompt second_prompt s = Some (res, s')"
  shows "\<exists>n. run_alone self n
              \<lparr>first_arg = first_prompt, second_arg = second_prompt,
               at = Suspended At_threads_create\<rparr> s
            = (\<lparr>first_arg = first_prompt, second_arg = second_prompt, at = ended res\<rparr>, s')"
  using assms unfolding get_fairy_tale_def add_message_def
  apply (rule await_bind_run_alone [rotated 2])
   apply simp
  apply (rule await_bind_run_alone [rotated 2], assumption)
   apply simp
  apply (rule wait_bind_run_alone [OF waits_in_wait1, rotated 1], assumption)
  apply (rule await_bind_run_alone [rotated 2], assumption)
   apply simp
  apply (rule wait_bind_run_alone [OF waits_in_wait2, rotated 1], assumption)
  apply (rule await_bind_run_alone [rotated 2], assumption)
   apply simp
  apply (rule await_return_run_alone [rotated 1], assumption)
  apply simp
  done

text \<open>
  Then from the steps to the function: at every place, what is left of the function
  is one step followed by what is left at the next place.
\<close>

lemma get_fairy_tale_rest:
  "get_fairy_tale self first_prompt second_prompt
     = rest self first_prompt second_prompt At_threads_create"
  by (simp add: get_fairy_tale_def rest_add1_def [abs_def] rest_wait1_def [abs_def]
      rest_add2_def [abs_def] rest_wait2_def [abs_def] rest_list_def [abs_def]
      rest_delete_def [abs_def])

lemma poll_while_test:
  "poll self tid r s = carry_on (waiting_rest self tid) (while_test r, s)"
  by (subst poll.simps)
     (simp add: carry_on_def while_test_def waiting_rest_def bind_def await_def
        split: prod.splits sum.splits)

lemma waiting_rest_step:
  "waiting_rest self tid w s
     = carry_on (waiting_rest self tid) (wait_for_response_step self tid w s)"
proof (cases w)
  case At_runs_create
  then show ?thesis
    by (auto simp: waiting_rest_def wait_for_response_def raise_def bind_def await_def
        carry_on_def poll_while_test
        split: option.splits prod.splits sum.splits coroutine.splits)
next
  case (At_runs_retrieve r)
  then show ?thesis
    by (auto simp: waiting_rest_def bind_def await_def carry_on_def
        split: option.splits prod.splits sum.splits)
next
  case (At_sleep r)
  then show ?thesis
    by (simp add: waiting_rest_def poll_while_test)
qed

lemma rest_step:
  "rest self p1 p2 p s = carry_on (rest self p1 p2) (get_fairy_tale_step self p1 p2 p s)"
proof (cases p)
  case At_threads_create
  then show ?thesis
    by (auto simp: bind_def await_def carry_on_def split: prod.splits sum.splits)
next
  case (At_add_message1 thread)
  then show ?thesis
    by (auto simp: rest_add1_def add_message_def bind_def await_def carry_on_def
        waiting_rest_def split: prod.splits sum.splits)
next
  case (At_wait1 thread w)
  then show ?thesis
    by (auto simp: rest_wait1_def bind_def carry_on_def waiting_rest_step [of self _ w s]
        split: prod.splits coroutine.splits)
next
  case (At_add_message2 thread run1)
  then show ?thesis
    by (auto simp: rest_add2_def add_message_def bind_def await_def carry_on_def
        waiting_rest_def split: prod.splits sum.splits)
next
  case (At_wait2 thread run1 w)
  then show ?thesis
    by (auto simp: rest_wait2_def bind_def carry_on_def waiting_rest_step [of self _ w s]
        split: prod.splits coroutine.splits)
next
  case (At_messages_list thread run1 run2)
  then show ?thesis
    by (auto simp: rest_list_def bind_def await_def carry_on_def
        split: prod.splits sum.splits)
next
  case (At_threads_delete thread run1 run2 messages)
  then show ?thesis
    by (auto simp: rest_delete_def bind_def await_def return_def carry_on_def
        split: prod.splits sum.splits)
qed

lemma run_alone_ended: "at t = ended res \<Longrightarrow> run_alone self n t s = (t, s)"
  by (induction n) (auto simp: task_step_def ended_def split: sum.splits)

lemma run_alone_rest:
  assumes "run_alone self n t s = (t', s')"
    and "at t = Suspended p" and "at t' = ended res"
  shows "rest self (first_arg t) (second_arg t) p s = Some (res, s')"
  using assms
proof (induction n arbitrary: t s p)
  case 0
  then show ?case by (auto simp: ended_def split: sum.splits)
next
  case (Suc n)
  obtain c sn where step: "get_fairy_tale_step self (first_arg t) (second_arg t) p s = (c, sn)"
    by (cases "get_fairy_tale_step self (first_arg t) (second_arg t) p s")
  with Suc.prems(1,2) have run: "run_alone self n (t\<lparr>at := c\<rparr>) sn = (t', s')"
    by (simp add: task_step_def)
  show ?case
  proof (cases c)
    case (Suspended p')
    with Suc.IH [OF run _ Suc.prems(3), of p'] step show ?thesis
      by (simp add: rest_step [of self _ _ p s] carry_on_def)
  next
    case (Returned x)
    then have "at (t\<lparr>at := c\<rparr>) = ended (Inr x)" by (simp add: ended_def)
    from run_alone_ended [OF this, of self n sn] run Suc.prems(3) Returned
    have "res = Inr x" "s' = sn" by (auto simp: ended_def split: sum.splits)
    with step Returned show ?thesis by (simp add: rest_step [of self _ _ p s] carry_on_def)
  next
    case (Raised e)
    then have "at (t\<lparr>at := c\<rparr>) = ended (Inl e)" by (simp add: ended_def)
    from run_alone_ended [OF this, of self n sn] run Suc.prems(3) Raised
    have "res = Inl e" "s' = sn" by (auto simp: ended_def split: sum.splits)
    with step Raised show ?thesis by (simp add: rest_step [of self _ _ p s] carry_on_def)
  qed
qed

text \<open>
  \<open>get_fairy_tale\<close> ends with a value or an exception in a state of the service
  exactly when the task made for the same arguments, resumed alone, gets there.
\<close>

theorem get_fairy_tale_alone:
  "get_fairy_tale self first_prompt second_prompt s = Some (res, s') \<longleftrightarrow>
     (\<exists>n. run_alone self n
              \<lparr>first_arg = first_prompt, second_arg = second_prompt,
               at = Suspended At_threads_create\<rparr> s
            = (\<lparr>first_arg = first_prompt, second_arg = second_prompt, at = ended res\<rparr>, s'))"
proof
  assume "get_fairy_tale self first_prompt second_prompt s = Some (res, s')"
  then show "\<exists>n. run_alone self n
              \<lparr>first_arg = first_prompt, second_arg = second_prompt,
               at = Suspended At_threads_create\<rparr> s
            = (\<lparr>first_arg = first_prompt, second_arg = second_prompt, at = ended res\<rparr>, s')"
    by (rule get_fairy_tale_run_alone)
next
  assume "\<exists>n. run_alone self n
              \<lparr>first_arg = first_prompt, second_arg = second_prompt,
               at = Suspended At_threads_create\<rparr> s
            = (\<lparr>first_arg = first_prompt, second_arg = second_prompt, at = ended res\<rparr>, s')"
  then obtain n where "run_alone self n
              \<lparr>first_arg = first_prompt, second_arg = second_prompt,
               at = Suspended At_threads_create\<rparr> s
            = (\<lparr>first_arg = first_prompt, second_arg = second_prompt, at = ended res\<rparr>, s')" ..
  from run_alone_rest [OF this, of At_threads_create res]
  show "get_fairy_tale self first_prompt second_prompt s = Some (res, s')"
    by (simp add: get_fairy_tale_rest)
qed

section \<open>Properties of a pipeline under any interleaving\<close>

lemma while_test_Returned: "while_test r = Returned r' \<Longrightarrow> r' = r \<and> \<not> busy r"
  by (auto simp: while_test_def busy_def split: if_splits)

lemma wait_for_response_step_Returned:
  "wait_for_response_step self tid w s = (Returned r, s') \<Longrightarrow> \<not> busy r"
  by (cases w) (auto split: option.splits prod.splits sum.splits dest: while_test_Returned)

lemma get_fairy_tale_step_runs_over:
  assumes "runs_over (Suspended p)"
    and "get_fairy_tale_step self first_prompt second_prompt p s = (c, s')"
  shows "runs_over c"
proof (cases p)
  case (At_wait1 thread w)
  with assms(2) show ?thesis
    by (auto split: prod.splits coroutine.splits dest: wait_for_response_step_Returned)
next
  case (At_wait2 thread run1 w)
  with assms show ?thesis
    by (auto split: prod.splits coroutine.splits dest: wait_for_response_step_Returned)
qed (use assms in \<open>auto split: prod.splits sum.splits\<close>)

lemma task_step_runs_over:
  "runs_over (at t) \<Longrightarrow> runs_over (at (fst (task_step self t s)))"
  by (auto simp: task_step_def split: coroutine.splits prod.splits
      dest: get_fairy_tale_step_runs_over)

lemma resume_runs_over:
  "runs_over (at t) \<Longrightarrow> runs_over (at (resume self t ss))"
  by (induction ss arbitrary: t) (auto intro: task_step_runs_over)

lemma get_fairy_tale_step_own_thread:
  assumes "own_thread self (Suspended p)"
    and "get_fairy_tale_step self first_prompt second_prompt p s = (c, s')"
  shows "own_thread self c"
proof (cases p)
  case At_threads_create
  show ?thesis
  proof (cases "threads_create self s")
    case (Pair res sn)
    show ?thesis
    proof (cases res)
      case (Inl e)
      with Pair At_threads_create assms(2) show ?thesis by (auto simp: own_thread_def)
    next
      case (Inr thread)
      with Pair have "fst (threads_create self s) = Inr thread" by simp
      then have "\<exists>s. fst (threads_create self s) = Inr thread" by blast
      with Pair Inr At_threads_create assms(2) show ?thesis by (auto simp: own_thread_def)
    qed
  qed
qed (use assms in \<open>auto simp: own_thread_def split: prod.splits sum.splits coroutine.splits\<close>)

lemma task_step_own_thread:
  "own_thread self (at t) \<Longrightarrow> own_thread self (at (fst (task_step self t s)))"
  by (auto simp: task_step_def split: coroutine.splits prod.splits
      dest: get_fairy_tale_step_own_thread)

lemma resume_own_thread:
  "own_thread self (at t) \<Longrightarrow> own_thread self (at (resume self t ss))"
  by (induction ss arbitrary: t) (auto intro: task_step_own_thread)

text \<open>
  C8. Line 157, the \<^verbatim>\<open>await\<close> that posts the second message, is the place
  \<open>At_add_message2 thread run1\<close>. Whenever a pipeline that started at its first line is
  suspended there, under any interleaving with other tasks, the run the first
  \<open>wait_for_response\<close> returned is over: its status is neither \<open>queued\<close> nor
  \<open>in_progress\<close>. (The status need not be \<open>completed\<close>: the second message is posted
  after a run that failed, too.)
\<close>

theorem second_message_after_first_run:
  assumes "at t = Suspended At_threads_create"
    and "at (resume self t ss) = Suspended (At_add_message2 thread run1)"
  shows "status run1 \<noteq> ''queued'' \<and> status run1 \<noteq> ''in_progress''"
proof -
  from assms(1) have "runs_over (at t)" by simp
  then have "runs_over (at (resume self t ss))" by (rule resume_runs_over)
  with assms(2) show ?thesis by (simp add: busy_def)
qed

theorem second_message_after_first_run_witness:
  "at (new_task ''T:'' ''Q'' ''b'') = Suspended At_threads_create
   \<and> at (resume (scripted_tale fails_on_b echo never [''b'']) (new_task ''T:'' ''Q'' ''b'')
        [[],
         [\<lparr>name = ''t'', posted = [], polls = 0, deleted = False\<rparr>],
         [\<lparr>name = ''t'', posted = [''T:b.''], polls = 0, deleted = False\<rparr>],
         [\<lparr>name = ''t'', posted = [''T:b.''], polls = 0, deleted = False\<rparr>],
         [\<lparr>name = ''t'', posted = [''T:b.''], polls = 1, deleted = False\<rparr>],
         [\<lparr>name = ''t'', posted = [''T:b.''], polls = 1, deleted = False\<rparr>],
         [\<lparr>name = ''t'', posted = [''T:b.''], polls = 2, deleted = False\<rparr>]])
     = Suspended (At_add_message2 \<lparr>thread_id = ''t''\<rparr> \<lparr>run_id = ''r'', status = ''failed''\<rparr>)
   \<and> status \<lparr>run_id = ''r'', status = ''failed''\<rparr> \<noteq> ''queued''
   \<and> status \<lparr>run_id = ''r'', status = ''failed''\<rparr> \<noteq> ''in_progress''"
proof -
  have a: "at (new_task ''T:'' ''Q'' ''b'') = Suspended At_threads_create"
    by (simp add: new_task_def)
  have b: "at (resume (scripted_tale fails_on_b echo never [''b'']) (new_task ''T:'' ''Q'' ''b'')
        [[],
         [\<lparr>name = ''t'', posted = [], polls = 0, deleted = False\<rparr>],
         [\<lparr>name = ''t'', posted = [''T:b.''], polls = 0, deleted = False\<rparr>],
         [\<lparr>name = ''t'', posted = [''T:b.''], polls = 0, deleted = False\<rparr>],
         [\<lparr>name = ''t'', posted = [''T:b.''], polls = 1, deleted = False\<rparr>],
         [\<lparr>name = ''t'', posted = [''T:b.''], polls = 1, deleted = False\<rparr>],
         [\<lparr>name = ''t'', posted = [''T:b.''], polls = 2, deleted = False\<rparr>]])
     = Suspended (At_add_message2 \<lparr>thread_id = ''t''\<rparr> \<lparr>run_id = ''r'', status = ''failed''\<rparr>)"
    by code_simp
  from second_message_after_first_run [OF a b] a b show ?thesis by simp
qed

lemma resume_ended:
  "at t = Returned x \<or> at t = Raised e \<Longrightarrow> resume self t ss = t"
  by (induction ss) (auto simp: task_step_def)

lemma task_step_args:
  "first_arg (fst (task_step self t s)) = first_arg t
   \<and> second_arg (fst (task_step self t s)) = second_arg t"
  by (auto simp: task_step_def split: coroutine.splits prod.splits)

text \<open>A task that has returned did so by one last step, from a place it was suspended at.\<close>

lemma resume_last_step:
  assumes "at (resume self t ss) = Returned res" and "at t = Suspended p0"
  shows "\<exists>ss' p s. at (resume self t ss') = Suspended p
           \<and> fst (get_fairy_tale_step self (first_arg t) (second_arg t) p s) = Returned res"
  using assms
proof (induction ss arbitrary: t p0)
  case Nil
  then show ?case by simp
next
  case (Cons s ss)
  let ?t1 = "fst (task_step self t s)"
  show ?case
  proof (cases "at ?t1")
    case (Suspended p1)
    from Cons.prems(1) have "at (resume self ?t1 ss) = Returned res" by simp
    from Cons.IH [OF this Suspended] obtain ss' p s' where
      "at (resume self ?t1 ss') = Suspended p"
      "fst (get_fairy_tale_step self (first_arg ?t1) (second_arg ?t1) p s') = Returned res"
      by blast
    then have "at (resume self t (s # ss')) = Suspended p
           \<and> fst (get_fairy_tale_step self (first_arg t) (second_arg t) p s') = Returned res"
      by (simp add: task_step_args)
    then show ?thesis by blast
  next
    case (Returned x)
    with resume_ended [of ?t1 x _ self ss] Cons.prems(1) have "x = res" by simp
    with Returned Cons.prems(2)
    have "fst (get_fairy_tale_step self (first_arg t) (second_arg t) p0 s) = Returned res"
      by (auto simp: task_step_def split: prod.splits)
    with Cons.prems(2) have "at (resume self t []) = Suspended p0
           \<and> fst (get_fairy_tale_step self (first_arg t) (second_arg t) p0 s) = Returned res"
      by simp
    then show ?thesis by blast
  next
    case (Raised e)
    with resume_ended [of ?t1 _ e self ss] Cons.prems(1) show ?thesis by simp
  qed
qed

lemma get_fairy_tale_step_Returned:
  "fst (get_fairy_tale_step self p1 p2 p s) = Returned res \<Longrightarrow>
     \<exists>thread run1 run2 messages. p = At_threads_delete thread run1 run2 messages
        \<and> fst (threads_delete self (thread_id thread) s) = Inr ()
        \<and> res = finish run1 run2 messages"
  by (cases p) (auto split: prod.splits sum.splits coroutine.splits)

text \<open>
  What C3 and C5 say of \<open>get_fairy_tale\<close> run on its own holds under any interleaving
  with other tasks. A pipeline that started at its first line and has returned \<open>res\<close>
  did so from line 160, by a deletion that succeeded, of a thread that
  \<^verbatim>\<open>threads.create\<close> had returned; both its runs were over; and \<open>res\<close> is the
  value of lines 161-165 for these runs, so it is not None exactly when both have the
  status \<open>completed\<close>.
\<close>

theorem pipeline_returned:
  assumes "at t = Suspended At_threads_create" and "at (resume self t ss) = Returned res"
  shows "\<exists>ss' thread run1 run2 messages s0 s.
           at (resume self t ss') = Suspended (At_threads_delete thread run1 run2 messages)
         \<and> fst (threads_create self s0) = Inr thread
         \<and> fst (threads_delete self (thread_id thread) s) = Inr ()
         \<and> \<not> busy run1 \<and> \<not> busy run2
         \<and> res = finish run1 run2 messages
         \<and> (res \<noteq> None \<longleftrightarrow> status run1 = ''completed'' \<and> status run2 = ''completed'')"
proof -
  from resume_last_step [OF assms(2,1)] obtain ss' p s where
    p: "at (resume self t ss') = Suspended p"
    and st: "fst (get_fairy_tale_step self (first_arg t) (second_arg t) p s) = Returned res"
    by blast
  from get_fairy_tale_step_Returned [OF st] obtain thread run1 run2 messages where
    pd: "p = At_threads_delete thread run1 run2 messages"
    and del: "fst (threads_delete self (thread_id thread) s) = Inr ()"
    and res: "res = finish run1 run2 messages" by blast
  from assms(1) have "runs_over (at t)" "own_thread self (at t)"
    by (simp_all add: own_thread_def)
  then have "runs_over (at (resume self t ss'))" "own_thread self (at (resume self t ss'))"
    by (auto intro: resume_runs_over resume_own_thread)
  with p pd have "\<not> busy run1" "\<not> busy run2" "\<exists>s0. fst (threads_create self s0) = Inr thread"
    by (simp_all add: own_thread_def)
  moreover from res
  have "res \<noteq> None \<longleftrightarrow> status run1 = ''completed'' \<and> status run2 = ''completed''"
    by (simp add: finish_def)
  ultimately show ?thesis using p pd del res by blast
qed


section \<open>Properties of write_fairy_tales\<close>

lemma becomes_refl: "becomes self t t"
  unfolding becomes_def by (rule exI [of _ "[]"]) simp

lemma becomes_step: "becomes self (fst (task_step self t s)) t' \<Longrightarrow> becomes self t t'"
  unfolding becomes_def
proof (elim exE)
  fix ss assume "t' = resume self (fst (task_step self t s)) ss"
  then have "t' = resume self t (s # ss)" by simp
  then show "\<exists>ss. t' = resume self t ss" by blast
qed

lemma list_all2_becomes_refl: "list_all2 (becomes self) ts ts"
  by (simp add: list_all2_refl becomes_refl)

lemma list_all2_becomes_update:
  assumes i: "i < length ts"
    and left: "list_all2 (becomes self) (ts[i := fst (task_step self (ts ! i) s)]) ts'"
  shows "list_all2 (becomes self) ts ts'"
proof -
  from left have len: "length ts = length ts'"
    by (auto dest: list_all2_lengthD)
  show ?thesis
  proof (rule list_all2_all_nthI [OF len])
    fix n assume n: "n < length ts"
    from left n have b: "becomes self ((ts[i := fst (task_step self (ts ! i) s)]) ! n) (ts' ! n)"
      by (auto dest: list_all2_nthD)
    show "becomes self (ts ! n) (ts' ! n)"
    proof (cases "n = i")
      case True
      with b i show ?thesis by (auto intro: becomes_step)
    next
      case False
      with b show ?thesis by simp
    qed
  qed
qed

text \<open>
  When gather returns, every task has returned, each one is what its own task of the
  start became, and the values are theirs in the order of the tasks.
\<close>

lemma gather_returns:
  "gather self sched ts s = Some (Inr rs, s') \<Longrightarrow>
     \<exists>ts'. list_all2 (becomes self) ts ts' \<and> list_all is_returned ts' \<and> rs = map result ts'"
proof (induction self sched ts s rule: gather.induct)
  case (1 self sched ts s)
  show ?case
  proof (cases "raised ts")
    case (Cons e es)
    with "1.prems" show ?thesis by (subst (asm) gather.simps) simp
  next
    case Nil
    show ?thesis
    proof (cases "list_all is_returned ts")
      case True
      with Nil "1.prems" have "rs = map result ts"
        by (subst (asm) gather.simps) simp
      with True list_all2_becomes_refl [of self ts] show ?thesis by blast
    next
      case False
      show ?thesis
      proof (cases sched)
        case Nil': Nil
        with Nil False "1.prems" show ?thesis by (subst (asm) gather.simps) simp
      next
        case (Cons i sched')
        show ?thesis
        proof (cases "i < length ts")
          case in_range: True
          obtain t' sn where st: "task_step self (ts ! i) s = (t', sn)"
            by (cases "task_step self (ts ! i) s")
          with Nil False Cons in_range "1.prems"
          have "gather self sched' (ts[i := t']) sn = Some (Inr rs, s')"
            by (subst (asm) gather.simps) simp
          from "1.IH"(1) [OF Nil False Cons in_range st [symmetric] this]
          obtain ts' where a: "list_all2 (becomes self) (ts[i := t']) ts'"
            and b: "list_all is_returned ts'" and c: "rs = map result ts'" by blast
          from a st have "list_all2 (becomes self) (ts[i := fst (task_step self (ts ! i) s)]) ts'"
            by simp
          from list_all2_becomes_update [OF in_range this] b c show ?thesis by blast
        next
          case out_of_range: False
          with Nil False Cons "1.prems"
          have "gather self sched' ts s = Some (Inr rs, s')"
            by (subst (asm) gather.simps) simp
          from "1.IH"(2) [OF Nil False Cons out_of_range this] show ?thesis .
        qed
      qed
    qed
  qed
qed

lemma map_tuple_Cons:
  "map_tuple (g # gs) = Inr out \<longleftrightarrow>
     (\<exists>v vs. tuple g = Inr v \<and> map_tuple gs = Inr vs \<and> out = v # vs)"
  by (auto split: sum.splits)

lemma returned_result: "is_returned t \<Longrightarrow> at t = Returned (result t)"
  by (auto simp: is_returned_def result_def split: coroutine.splits)

lemma kept_exists:
  assumes "list_all2 Q xs ts"
    and "map_tuple (map the (filter (\<lambda>x. x \<noteq> None) (map result ts))) = Inr out"
  shows "\<exists>kept. subseq kept xs
           \<and> list_all2 (\<lambda>x v. \<exists>t g. Q x t \<and> result t = Some g \<and> tuple g = Inr v) kept out"
  using assms
proof (induction arbitrary: out rule: list_all2_induct)
  case Nil
  then show ?case by simp
next
  case (Cons x xs t ts)
  show ?case
  proof (cases "result t")
    case None
    with Cons.prems
    have "map_tuple (map the (filter (\<lambda>x. x \<noteq> None) (map result ts))) = Inr out"
      by (simp del: not_None_eq)
    from Cons.IH [OF this] obtain kept where k: "subseq kept xs"
      and l: "list_all2 (\<lambda>x v. \<exists>t g. Q x t \<and> result t = Some g \<and> tuple g = Inr v) kept out"
      by blast
    from k have "subseq kept (x # xs)" by (rule list_emb_Cons)
    with l show ?thesis by blast
  next
    case (Some g)
    with Cons.prems obtain v vs where v: "tuple g = Inr v"
      and vs: "map_tuple (map the (filter (\<lambda>x. x \<noteq> None) (map result ts))) = Inr vs"
      and out: "out = v # vs"
      by (auto simp: map_tuple_Cons simp del: map_tuple.simps not_None_eq)
    from Cons.IH [OF vs] obtain kept where k: "subseq kept xs"
      and l: "list_all2 (\<lambda>x v. \<exists>t g. Q x t \<and> result t = Some g \<and> tuple g = Inr v) kept vs"
      by blast
    from k have "subseq (x # kept) (x # xs)" by simp
    moreover from l Cons.hyps(1) Some v out
    have "list_all2 (\<lambda>x v. \<exists>t g. Q x t \<and> result t = Some g \<and> tuple g = Inr v) (x # kept) out"
      by auto
    ultimately show ?thesis by blast
  qed
qed

lemma write_fairy_tales_returns:
  assumes "write_fairy_tales self first_prompt second_prompt sched s = Some (Inr out, s')"
  shows "\<exists>ts'. list_all2 (\<lambda>topic t'. becomes self (new_task first_prompt second_prompt topic) t'
                                    \<and> is_returned t') (topics self) ts'
             \<and> map_tuple (map the (filter (\<lambda>x. x \<noteq> None) (map result ts'))) = Inr out"
proof -
  from assms obtain rs where
    g: "gather self sched (map (new_task first_prompt second_prompt) (topics self)) s
          = Some (Inr rs, s')"
    and m: "map_tuple (map the (filter (\<lambda>x. x \<noteq> None) rs)) = Inr out"
    by (auto simp: write_fairy_tales_def split: option.splits sum.splits prod.splits)
  from gather_returns [OF g] obtain ts' where
    a: "list_all2 (becomes self) (map (new_task first_prompt second_prompt) (topics self)) ts'"
    and b: "list_all is_returned ts'" and c: "rs = map result ts'" by blast
  from a b have "list_all2 (\<lambda>topic t'. becomes self (new_task first_prompt second_prompt topic) t'
                                    \<and> is_returned t') (topics self) ts'"
    by (auto simp: list_all2_map1 list_all2_conv_all_nth list_all_length)
  with m c show ?thesis by blast
qed

lemma raised_iff: "e \<in> set (raised ts) \<longleftrightarrow> (\<exists>t \<in> set ts. at t = Raised e)"
  by (induction ts) (auto simp: raised_def split: coroutine.splits)

lemma gather_skip:
  assumes "i < length ts" and "at (ts ! i) = Returned r"
  shows "gather self (i # sched) ts s = gather self sched ts s"
proof -
  from assms have step: "task_step self (ts ! i) s = (ts ! i, s)"
    by (simp add: task_step_def)
  show ?thesis
  proof (cases "raised ts")
    case (Cons e es)
    then show ?thesis
      by (simp add: gather.simps [of self "i # sched" ts s] gather.simps [of self sched ts s])
  next
    case Nil
    show ?thesis
    proof (cases "list_all is_returned ts")
      case True
      with Nil show ?thesis
        by (simp add: gather.simps [of self "i # sched" ts s] gather.simps [of self sched ts s])
    next
      case False
      with Nil assms(1) step show ?thesis
        by (simp add: gather.simps [of self "i # sched" ts s])
    qed
  qed
qed

lemma raised_update:
  assumes "raised ts = []" and "\<forall>e. at t \<noteq> Raised e"
  shows "raised (ts[i := t]) = []"
proof -
  have "e \<notin> set (raised (ts[i := t]))" for e
  proof
    assume "e \<in> set (raised (ts[i := t]))"
    then obtain x where x: "x \<in> set (ts[i := t])" and r: "at x = Raised e"
      unfolding raised_iff by blast
    from x have "x = t \<or> x \<in> set ts" by (auto dest: set_update_subset_insert [THEN subsetD])
    with r assms(2) have "x \<in> set ts" by auto
    with r have "e \<in> set (raised ts)" unfolding raised_iff by blast
    with assms(1) show False by simp
  qed
  then show ?thesis by (cases "raised (ts[i := t])") auto
qed

lemma run_alone_Raised:
  "at t = Raised e \<Longrightarrow> run_alone self n t s = (t, s)"
  by (induction n) (auto simp: task_step_def)

lemma run_alone_Returned:
  "at t = Returned r \<Longrightarrow> run_alone self n t s = (t, s)"
  by (induction n) (auto simp: task_step_def)

lemma gather_run_alone:
  assumes "run_alone self n (ts ! i) s = (t', s')" and "at t' = Returned r"
    and "i < length ts" and "raised ts = []"
  shows "gather self (replicate n i @ sched) ts s = gather self sched (ts[i := t']) s'"
  using assms
proof (induction n arbitrary: ts s)
  case 0
  then have "t' = ts ! i" "s' = s" by simp_all
  then show ?case by simp
next
  case (Suc n)
  obtain t1 s1 where st: "task_step self (ts ! i) s = (t1, s1)"
    by (cases "task_step self (ts ! i) s")
  with Suc.prems(1) have run: "run_alone self n t1 s1 = (t', s')" by simp
  have not_raised: "\<forall>e. at t1 \<noteq> Raised e"
  proof (intro allI notI)
    fix e assume "at t1 = Raised e"
    from run_alone_Raised [OF this, of self n s1] run Suc.prems(2) this show False by simp
  qed
  show ?case
  proof (cases "at (ts ! i)")
    case (Returned x)
    with st have same: "t1 = ts ! i" "s1 = s" by (simp_all add: task_step_def)
    with run have run': "run_alone self n (ts ! i) s = (t', s')" by simp
    from gather_skip [OF Suc.prems(3) Returned]
    have "gather self (replicate (Suc n) i @ sched) ts s = gather self (replicate n i @ sched) ts s"
      by simp
    also from Suc.IH [OF run' Suc.prems(2,3,4)]
    have "\<dots> = gather self sched (ts[i := t']) s'" .
    finally show ?thesis .
  next
    case (Suspended p)
    then have "\<not> list_all is_returned ts"
      using Suc.prems(3) by (auto simp: list_all_length is_returned_def)
    with Suc.prems(3,4) st
    have "gather self (replicate (Suc n) i @ sched) ts s
            = gather self (replicate n i @ sched) (ts[i := t1]) s1"
      by (subst gather.simps) simp
    also have "\<dots> = gather self sched ((ts[i := t1])[i := t']) s'"
    proof (rule Suc.IH)
      from run Suc.prems(3) show "run_alone self n (ts[i := t1] ! i) s1 = (t', s')" by simp
      show "at t' = Returned r" by fact
      from Suc.prems(3) show "i < length (ts[i := t1])" by simp
      from Suc.prems(4) not_raised show "raised (ts[i := t1]) = []" by (rule raised_update)
    qed
    finally show ?thesis by simp
  next
    case (Raised e)
    with Suc.prems(3) have "e \<in> set (raised ts)"
      unfolding raised_iff by (auto intro: nth_mem)
    with Suc.prems(4) show ?thesis by simp
  qed
qed

lemma raised_append: "raised (xs @ ys) = raised xs @ raised ys"
  by (simp add: raised_def)

lemma raised_returned: "raised (map2 (returned_task p1 p2) xs rs) = []"
  by (induction xs arbitrary: rs) (auto simp: raised_def returned_task_def split: list.splits)

lemma raised_new: "raised (map (new_task p1 p2) xs) = []"
  by (induction xs) (auto simp: raised_def new_task_def)

lemma gather_one_by_one:
  assumes "one_by_one self p1 p2 todo s = Some (Inr rs, s')"
    and "length fin = length rs0"
  shows "\<exists>sched. gather self sched
            (map2 (returned_task p1 p2) fin rs0 @ map (new_task p1 p2) todo) s
          = Some (Inr (rs0 @ rs), s')"
  using assms
proof (induction todo arbitrary: s rs fin rs0)
  case Nil
  then have "rs = []" "s' = s" by (simp_all add: return_def)
  moreover have "list_all is_returned (map2 (returned_task p1 p2) fin rs0)"
    by (auto simp: list_all_iff is_returned_def returned_task_def dest!: set_zip_leftD set_zip_rightD
        split: prod.splits) 
  moreover have "map result (map2 (returned_task p1 p2) fin rs0) = rs0"
    using Nil.prems(2)
    by (induction fin rs0 rule: list_induct2) (auto simp: result_def returned_task_def)
  ultimately have "gather self [] (map2 (returned_task p1 p2) fin rs0 @ map (new_task p1 p2) []) s
          = Some (Inr (rs0 @ rs), s')"
    by (subst gather.simps) (simp add: raised_returned)
  then show ?case by blast
next
  case (Cons topic todo)
  from Cons.prems(1) obtain r s1 rs' where
    g: "get_fairy_tale self (p1 @ topic @ ''.'') p2 s = Some (Inr r, s1)"
    and left: "one_by_one self p1 p2 todo s1 = Some (Inr rs', s')"
    and rs: "rs = r # rs'"
    by (auto simp: bind_returns return_returns)
  from g obtain n where n: "run_alone self n
        \<lparr>first_arg = p1 @ topic @ ''.'', second_arg = p2, at = Suspended At_threads_create\<rparr> s
      = (\<lparr>first_arg = p1 @ topic @ ''.'', second_arg = p2, at = ended (Inr r)\<rparr>, s1)"
    unfolding get_fairy_tale_alone by blast
  let ?ts = "map2 (returned_task p1 p2) fin rs0 @ map (new_task p1 p2) (topic # todo)"
  let ?i = "length fin"
  have len: "length (map2 (returned_task p1 p2) fin rs0) = ?i"
    using Cons.prems(2) by simp
  have at_i: "?ts ! ?i = new_task p1 p2 topic"
    using len by (simp add: nth_append)
  have upd: "?ts[?i := returned_task p1 p2 topic r]
      = map2 (returned_task p1 p2) (fin @ [topic]) (rs0 @ [r]) @ map (new_task p1 p2) todo"
    using len Cons.prems(2) by (simp add: list_update_append)
  from Cons.IH [OF left, of "fin @ [topic]" "rs0 @ [r]"] Cons.prems(2)
  obtain sched where sched: "gather self sched
      (map2 (returned_task p1 p2) (fin @ [topic]) (rs0 @ [r]) @ map (new_task p1 p2) todo) s1
      = Some (Inr ((rs0 @ [r]) @ rs'), s')" by auto
  have "gather self (replicate n ?i @ sched) ?ts s
      = gather self sched (?ts[?i := returned_task p1 p2 topic r]) s1"
  proof (rule gather_run_alone)
    from n at_i show "run_alone self n (?ts ! ?i) s = (returned_task p1 p2 topic r, s1)"
      by (simp add: new_task_def returned_task_def ended_def)
    show "at (returned_task p1 p2 topic r) = Returned r" by (simp add: returned_task_def)
    from len show "?i < length ?ts" by simp
    show "raised ?ts = []" by (simp only: raised_append raised_returned raised_new append_Nil)
  qed
  with sched upd rs have "gather self (replicate n ?i @ sched) ?ts s = Some (Inr (rs0 @ rs), s')"
    by simp
  then show ?case by blast
qed

lemma write_fairy_tales_one_by_one:
  assumes "one_by_one self first_prompt second_prompt (topics self) s = Some (Inr rs, s')"
  shows "\<exists>sched. write_fairy_tales self first_prompt second_prompt sched s
           = Some (map_tuple (map the (filter (\<lambda>x. x \<noteq> None) rs)), s')"
proof -
  from gather_one_by_one [OF assms, of "[]" "[]"] obtain sched where
    "gather self sched (map (new_task first_prompt second_prompt) (topics self)) s
       = Some (Inr rs, s')"
    by auto
  then have "write_fairy_tales self first_prompt second_prompt sched s
           = Some (map_tuple (map the (filter (\<lambda>x. x \<noteq> None) rs)), s')"
    by (simp add: write_fairy_tales_def)
  then show ?thesis by blast
qed

text \<open>
  C1. Whatever the order in which the event loop resumes the tasks, the list that
  \<open>write_fairy_tales\<close> returns is no longer than the list of topics, and its entries
  are the results of pipelines started for a subsequence of the topics, entry by entry
  in the order of the topics. And it does return: if the pipelines, run one after the
  other, all return, then under that order of the event loop \<open>write_fairy_tales\<close>
  ends with the tuples of their results.
\<close>

theorem write_fairy_tales_order:
  "(write_fairy_tales self first_prompt second_prompt sched s = Some (Inr out, s') \<longrightarrow>
      length out \<le> length (topics self)
    \<and> (\<exists>kept. subseq kept (topics self)
           \<and> list_all2 (produced_for self first_prompt second_prompt) kept out))
   \<and> (one_by_one self first_prompt second_prompt (topics self) s = Some (Inr rs, s1) \<longrightarrow>
        (\<exists>sched'. write_fairy_tales self first_prompt second_prompt sched' s
           = Some (map_tuple (map the (filter (\<lambda>x. x \<noteq> None) rs)), s1)))"
proof (intro conjI impI)
  assume ret: "write_fairy_tales self first_prompt second_prompt sched s = Some (Inr out, s')"
  from write_fairy_tales_returns [OF ret] obtain ts' where
    a: "list_all2 (\<lambda>topic t'. becomes self (new_task first_prompt second_prompt topic) t'
                                    \<and> is_returned t') (topics self) ts'"
    and m: "map_tuple (map the (filter (\<lambda>x. x \<noteq> None) (map result ts'))) = Inr out"
    by blast
  from kept_exists [OF a m] obtain kept where k: "subseq kept (topics self)"
    and l: "list_all2 (\<lambda>x v. \<exists>t g. (becomes self (new_task first_prompt second_prompt x) t
                \<and> is_returned t) \<and> result t = Some g \<and> tuple g = Inr v) kept out"
    by blast
  have "produced_for self first_prompt second_prompt x v"
    if "\<exists>t g. (becomes self (new_task first_prompt second_prompt x) t
                \<and> is_returned t) \<and> result t = Some g \<and> tuple g = Inr v" for x v
  proof -
    from that obtain t g ss where "t = resume self (new_task first_prompt second_prompt x) ss"
      and "is_returned t" and "result t = Some g" and "tuple g = Inr v"
      by (auto simp: becomes_def)
    then show ?thesis
      using returned_result [of t] by (auto simp: produced_for_def)
  qed
  with l have l': "list_all2 (produced_for self first_prompt second_prompt) kept out"
    by (auto elim!: list_all2_mono)
  from l' have "length out = length kept" by (auto dest: list_all2_lengthD)
  also from k have "\<dots> \<le> length (topics self)" by (rule list_emb_length)
  finally show "length out \<le> length (topics self)" .
  from k l' show "\<exists>kept. subseq kept (topics self)
           \<and> list_all2 (produced_for self first_prompt second_prompt) kept out"
    by blast
next
  assume "one_by_one self first_prompt second_prompt (topics self) s = Some (Inr rs, s1)"
  then show "\<exists>sched'. write_fairy_tales self first_prompt second_prompt sched' s
           = Some (map_tuple (map the (filter (\<lambda>x. x \<noteq> None) rs)), s1)"
    by (rule write_fairy_tales_one_by_one)
qed

theorem write_fairy_tales_order_witness:
  "write_fairy_tales (scripted_tale fails_on_b echo never [''a'', ''b'', ''c'']) ''T:'' ''Q''
      (replicate 15 2 @ replicate 15 1 @ replicate 15 0) []
     = Some (Inr [[''re T:a.'', ''re Q''], [''re T:c.'', ''re Q'']],
        [\<lparr>name = ''t'', posted = [''T:c.'', ''Q''], polls = 2, deleted = True\<rparr>,
         \<lparr>name = ''tt'', posted = [''T:b.'', ''Q''], polls = 2, deleted = True\<rparr>,
         \<lparr>name = ''ttt'', posted = [''T:a.'', ''Q''], polls = 2, deleted = True\<rparr>])
   \<and> (\<exists>kept. subseq kept [''a'', ''b'', ''c'']
          \<and> list_all2
               (produced_for (scripted_tale fails_on_b echo never [''a'', ''b'', ''c'']) ''T:'' ''Q'')
               kept [[''re T:a.'', ''re Q''], [''re T:c.'', ''re Q'']])
   \<and> one_by_one (scripted_tale fails_on_b echo never [''a'', ''b'', ''c'']) ''T:'' ''Q''
        [''a'', ''b'', ''c''] []
     = Some (Inr [Some [\<lparr>role = ''user'', content = [Text_block ''T:a.'']\<rparr>,
                        \<lparr>role = ''assistant'', content = [Text_block ''re T:a.'']\<rparr>,
                        \<lparr>role = ''user'', content = [Text_block ''Q'']\<rparr>,
                        \<lparr>role = ''assistant'', content = [Text_block ''re Q'']\<rparr>],
                  None,
                  Some [\<lparr>role = ''user'', content = [Text_block ''T:c.'']\<rparr>,
                        \<lparr>role = ''assistant'', content = [Text_block ''re T:c.'']\<rparr>,
                        \<lparr>role = ''user'', content = [Text_block ''Q'']\<rparr>,
                        \<lparr>role = ''assistant'', content = [Text_block ''re Q'']\<rparr>]],
        [\<lparr>name = ''t'', posted = [''T:a.'', ''Q''], polls = 2, deleted = True\<rparr>,
         \<lparr>name = ''tt'', posted = [''T:b.'', ''Q''], polls = 2, deleted = True\<rparr>,
         \<lparr>name = ''ttt'', posted = [''T:c.'', ''Q''], polls = 2, deleted = True\<rparr>])
   \<and> (\<exists>sched'. write_fairy_tales (scripted_tale fails_on_b echo never [''a'', ''b'', ''c''])
          ''T:'' ''Q'' sched' []
        = Some (Inr [[''re T:a.'', ''re Q''], [''re T:c.'', ''re Q'']],
           [\<lparr>name = ''t'', posted = [''T:a.'', ''Q''], polls = 2, deleted = True\<rparr>,
            \<lparr>name = ''tt'', posted = [''T:b.'', ''Q''], polls = 2, deleted = True\<rparr>,
            \<lparr>name = ''ttt'', posted = [''T:c.'', ''Q''], polls = 2, deleted = True\<rparr>]))"
proof -
  let ?self = "scripted_tale fails_on_b echo never [''a'', ''b'', ''c'']"
  let ?rs = "[Some [\<lparr>role = ''user'', content = [Text_block ''T:a.'']\<rparr>,
                    \<lparr>role = ''assistant'', content = [Text_block ''re T:a.'']\<rparr>,
                    \<lparr>role = ''user'', content = [Text_block ''Q'']\<rparr>,
                    \<lparr>role = ''assistant'', content = [Text_block ''re Q'']\<rparr>],
              None,
              Some [\<lparr>role = ''user'', content = [Text_block ''T:c.'']\<rparr>,
                    \<lparr>role = ''assistant'', content = [Text_block ''re T:c.'']\<rparr>,
                    \<lparr>role = ''user'', content = [Text_block ''Q'']\<rparr>,
                    \<lparr>role = ''assistant'', content = [Text_block ''re Q'']\<rparr>]]"
  let ?s1 = "[\<lparr>name = ''t'', posted = [''T:a.'', ''Q''], polls = 2, deleted = True\<rparr>,
              \<lparr>name = ''tt'', posted = [''T:b.'', ''Q''], polls = 2, deleted = True\<rparr>,
              \<lparr>name = ''ttt'', posted = [''T:c.'', ''Q''], polls = 2, deleted = True\<rparr>]"
  have e: "write_fairy_tales ?self ''T:'' ''Q''
      (replicate 15 2 @ replicate 15 1 @ replicate 15 0) []
     = Some (Inr [[''re T:a.'', ''re Q''], [''re T:c.'', ''re Q'']],
        [\<lparr>name = ''t'', posted = [''T:c.'', ''Q''], polls = 2, deleted = True\<rparr>,
         \<lparr>name = ''tt'', posted = [''T:b.'', ''Q''], polls = 2, deleted = True\<rparr>,
         \<lparr>name = ''ttt'', posted = [''T:a.'', ''Q''], polls = 2, deleted = True\<rparr>])"
    by code_simp
  have o: "one_by_one ?self ''T:'' ''Q'' [''a'', ''b'', ''c''] [] = Some (Inr ?rs, ?s1)"
    by code_simp
  have m: "map_tuple (map the (filter (\<lambda>x. x \<noteq> None) ?rs))
             = Inr [[''re T:a.'', ''re Q''], [''re T:c.'', ''re Q'']]"
    by code_simp
  have t: "topics ?self = [''a'', ''b'', ''c'']"
    by (simp add: scripted_tale_def AsyncOpenAI.extend_def FairyTale.fields_def)
  note inst = write_fairy_tales_order
    [of ?self "''T:''" "''Q''" "replicate 15 2 @ replicate 15 1 @ replicate 15 0" "[]"
        "[[''re T:a.'', ''re Q''], [''re T:c.'', ''re Q'']]"
        "[\<lparr>name = ''t'', posted = [''T:c.'', ''Q''], polls = 2, deleted = True\<rparr>,
          \<lparr>name = ''tt'', posted = [''T:b.'', ''Q''], polls = 2, deleted = True\<rparr>,
          \<lparr>name = ''ttt'', posted = [''T:a.'', ''Q''], polls = 2, deleted = True\<rparr>]"
        ?rs ?s1]
  from inst e t have first: "\<exists>kept. subseq kept [''a'', ''b'', ''c'']
          \<and> list_all2 (produced_for ?self ''T:'' ''Q'') kept
               [[''re T:a.'', ''re Q''], [''re T:c.'', ''re Q'']]"
    by simp
  from inst o t m have second: "\<exists>sched'. write_fairy_tales ?self ''T:'' ''Q'' sched' []
        = Some (Inr [[''re T:a.'', ''re Q''], [''re T:c.'', ''re Q'']], ?s1)"
    by simp
  from e first o second show ?thesis by (intro conjI)
qed

text \<open>When gather raises, a task has raised that exception.\<close>

lemma gather_raises:
  "gather self sched ts s = Some (Inl e, s') \<Longrightarrow>
     \<exists>ts'. list_all2 (becomes self) ts ts' \<and> e \<in> set (raised ts')"
proof (induction self sched ts s rule: gather.induct)
  case (1 self sched ts s)
  show ?case
  proof (cases "raised ts")
    case (Cons e' es)
    with "1.prems" have "e' = e" by (subst (asm) gather.simps) simp
    with Cons list_all2_becomes_refl [of self ts] show ?thesis by force
  next
    case Nil
    show ?thesis
    proof (cases "list_all is_returned ts")
      case True
      with Nil "1.prems" show ?thesis by (subst (asm) gather.simps) simp
    next
      case False
      show ?thesis
      proof (cases sched)
        case Nil': Nil
        with Nil False "1.prems" show ?thesis by (subst (asm) gather.simps) simp
      next
        case (Cons i sched')
        show ?thesis
        proof (cases "i < length ts")
          case in_range: True
          obtain t' sn where st: "task_step self (ts ! i) s = (t', sn)"
            by (cases "task_step self (ts ! i) s")
          with Nil False Cons in_range "1.prems"
          have "gather self sched' (ts[i := t']) sn = Some (Inl e, s')"
            by (subst (asm) gather.simps) simp
          from "1.IH"(1) [OF Nil False Cons in_range st [symmetric] this]
          obtain ts' where a: "list_all2 (becomes self) (ts[i := t']) ts'"
            and b: "e \<in> set (raised ts')" by blast
          from a st have "list_all2 (becomes self) (ts[i := fst (task_step self (ts ! i) s)]) ts'"
            by simp
          from list_all2_becomes_update [OF in_range this] b show ?thesis by blast
        next
          case out_of_range: False
          with Nil False Cons "1.prems"
          have "gather self sched' ts s = Some (Inl e, s')"
            by (subst (asm) gather.simps) simp
          from "1.IH"(2) [OF Nil False Cons out_of_range this] show ?thesis .
        qed
      qed
    qed
  qed
qed

text \<open>
  A step raises only what the remote service raises, or AttributeError for want of an
  assistant: no status of a run makes a pipeline raise.
\<close>

lemma wait_for_response_step_Raised:
  "wait_for_response_step self tid w s = (Raised e, s') \<Longrightarrow>
     (assistant self = None \<and> e = AttributeError) \<or> service_raises self e s"
  by (cases w)
     (auto simp: service_raises_def while_test_def
        split: option.splits prod.splits sum.splits if_splits,
      (metis fst_conv)+)

lemma get_fairy_tale_step_Raised:
  "get_fairy_tale_step self p1 p2 p s = (Raised e, s') \<Longrightarrow>
     (assistant self = None \<and> e = AttributeError) \<or> service_raises self e s"
proof (cases p)
  case (At_wait1 thread w)
  then show "get_fairy_tale_step self p1 p2 p s = (Raised e, s') \<Longrightarrow> ?thesis"
    by (auto split: prod.splits coroutine.splits dest!: wait_for_response_step_Raised)
next
  case (At_wait2 thread run1 w)
  then show "get_fairy_tale_step self p1 p2 p s = (Raised e, s') \<Longrightarrow> ?thesis"
    by (auto split: prod.splits coroutine.splits dest!: wait_for_response_step_Raised)
qed (auto simp: service_raises_def split: prod.splits sum.splits, (metis fst_conv)+)

lemma resume_Raised:
  "at (resume self t ss) = Raised e \<Longrightarrow> at t \<noteq> Raised e \<Longrightarrow>
     (assistant self = None \<and> e = AttributeError) \<or> (\<exists>st. service_raises self e st)"
proof (induction ss arbitrary: t)
  case Nil
  then show ?case by simp
next
  case (Cons s ss)
  show ?case
  proof (cases "at (fst (task_step self t s)) = Raised e")
    case False
    with Cons.IH [of "fst (task_step self t s)"] Cons.prems(1) show ?thesis by simp
  next
    case True
    with Cons.prems(2) obtain p c sn where p: "at t = Suspended p"
      and st: "get_fairy_tale_step self (first_arg t) (second_arg t) p s = (c, sn)"
      and c: "c = Raised e"
      by (auto simp: task_step_def split: coroutine.splits prod.splits)
    from get_fairy_tale_step_Raised [of self _ _ p s e sn] st c show ?thesis by blast
  qed
qed

text \<open>
  C2 (amended). A pipeline whose run does not complete returns None and yields no
  result for its topic only. Whenever \<open>write_fairy_tales\<close> returns, every pipeline has
  returned, each with the outcome of its own topic's task, and the list holds, in the
  order of the topics, the tuple of every outcome that is not None: one pipeline's None
  drops no sibling's result. And whenever \<open>write_fairy_tales\<close> raises, the exception is
  one the remote service raised in a pipeline, or AttributeError for want of an
  assistant, or one raised while the tuples were made after every pipeline had
  returned: a run that did not complete makes it raise nothing.
\<close>

theorem write_fairy_tales_keeps_siblings:
  "(write_fairy_tales self first_prompt second_prompt sched s = Some (Inr out, s') \<longrightarrow>
      (\<exists>outcomes.
         list_all2 (\<lambda>topic r. \<exists>ss. at (resume self (new_task first_prompt second_prompt topic) ss)
                                    = Returned r) (topics self) outcomes
       \<and> map_tuple (map the (filter (\<lambda>r. r \<noteq> None) outcomes)) = Inr out))
   \<and> (write_fairy_tales self first_prompt second_prompt sched s = Some (Inl e, s') \<longrightarrow>
        (assistant self = None \<and> e = AttributeError)
      \<or> (\<exists>st. service_raises self e st)
      \<or> (\<exists>outcomes.
            list_all2 (\<lambda>topic r. \<exists>ss. at (resume self (new_task first_prompt second_prompt topic) ss)
                                       = Returned r) (topics self) outcomes
          \<and> map_tuple (map the (filter (\<lambda>r. r \<noteq> None) outcomes)) = Inl e))"
proof (intro conjI impI)
  assume ret: "write_fairy_tales self first_prompt second_prompt sched s = Some (Inr out, s')"
  from write_fairy_tales_returns [OF ret] obtain ts' where
    a: "list_all2 (\<lambda>topic t'. becomes self (new_task first_prompt second_prompt topic) t'
                                    \<and> is_returned t') (topics self) ts'"
    and m: "map_tuple (map the (filter (\<lambda>x. x \<noteq> None) (map result ts'))) = Inr out"
    by blast
  have "\<exists>ss. at (resume self (new_task first_prompt second_prompt topic) ss) = Returned (result t')"
    if "becomes self (new_task first_prompt second_prompt topic) t' \<and> is_returned t'" for topic t'
    using that returned_result [of t'] by (auto simp: becomes_def)
  with a have "list_all2
      (\<lambda>topic r. \<exists>ss. at (resume self (new_task first_prompt second_prompt topic) ss) = Returned r)
      (topics self) (map result ts')"
    by (auto simp: list_all2_map2 elim!: list_all2_mono)
  with m show "\<exists>outcomes.
         list_all2 (\<lambda>topic r. \<exists>ss. at (resume self (new_task first_prompt second_prompt topic) ss)
                                    = Returned r) (topics self) outcomes
       \<and> map_tuple (map the (filter (\<lambda>r. r \<noteq> None) outcomes)) = Inr out"
    by blast
next
  assume exc: "write_fairy_tales self first_prompt second_prompt sched s = Some (Inl e, s')"
  let ?ts = "map (new_task first_prompt second_prompt) (topics self)"
  let ?goal = "(assistant self = None \<and> e = AttributeError)
      \<or> (\<exists>st. service_raises self e st)
      \<or> (\<exists>outcomes.
            list_all2 (\<lambda>topic r. \<exists>ss. at (resume self (new_task first_prompt second_prompt topic) ss)
                                       = Returned r) (topics self) outcomes
          \<and> map_tuple (map the (filter (\<lambda>r. r \<noteq> None) outcomes)) = Inl e)"
  show ?goal
  proof (cases "gather self sched ?ts s")
    case None
    with exc show ?thesis by (simp add: write_fairy_tales_def)
  next
    case (Some y)
    obtain res sn where y: "y = (res, sn)" by (cases y)
    show ?thesis
    proof (cases res)
      case (Inl e')
      with Some y exc have g: "gather self sched ?ts s = Some (Inl e, s')"
        by (simp add: write_fairy_tales_def)
      from gather_raises [OF g] obtain ts' where
        a: "list_all2 (becomes self) ?ts ts'" and b: "e \<in> set (raised ts')" by blast
      from b obtain t where "t \<in> set ts'" and "at t = Raised e"
        unfolding raised_iff by blast
      then obtain i where i: "i < length ts'" and r: "at (ts' ! i) = Raised e"
        by (auto simp: in_set_conv_nth)
      from a have len: "length ts' = length (topics self)" by (auto dest: list_all2_lengthD)
      from a i len
      have "becomes self (new_task first_prompt second_prompt (topics self ! i)) (ts' ! i)"
        by (auto dest: list_all2_nthD2)
      with r obtain ss where
        "at (resume self (new_task first_prompt second_prompt (topics self ! i)) ss) = Raised e"
        by (auto simp: becomes_def)
      from resume_Raised [OF this] show ?thesis by (auto simp: new_task_def)
    next
      case (Inr rs)
      with Some y exc have g: "gather self sched ?ts s = Some (Inr rs, s')"
        and m: "map_tuple (map the (filter (\<lambda>x. x \<noteq> None) rs)) = Inl e"
        by (simp_all add: write_fairy_tales_def)
      from gather_returns [OF g] obtain ts' where
        a: "list_all2 (becomes self) ?ts ts'"
        and b: "list_all is_returned ts'" and c: "rs = map result ts'" by blast
      have "\<exists>ss. at (resume self (new_task first_prompt second_prompt topic) ss)
                = Returned (result t')"
        if "becomes self (new_task first_prompt second_prompt topic) t' \<and> is_returned t'"
        for topic t'
        using that returned_result [of t'] by (auto simp: becomes_def)
      moreover from a b
      have "list_all2 (\<lambda>topic t'. becomes self (new_task first_prompt second_prompt topic) t'
                                    \<and> is_returned t') (topics self) ts'"
        by (auto simp: list_all2_map1 list_all2_conv_all_nth list_all_length)
      ultimately have "list_all2
        (\<lambda>topic r. \<exists>ss. at (resume self (new_task first_prompt second_prompt topic) ss) = Returned r)
        (topics self) (map result ts')"
        by (auto simp: list_all2_map2 elim!: list_all2_mono)
      with m c show ?thesis by blast
    qed
  qed
qed

theorem write_fairy_tales_keeps_siblings_witness:
  "write_fairy_tales (scripted_tale fails_on_b echo never [''b'', ''a'']) ''T:'' ''Q''
      (concat (replicate 15 [0, 1])) []
     = Some (Inr [[''re T:a.'', ''re Q'']],
        [\<lparr>name = ''t'', posted = [''T:b.'', ''Q''], polls = 2, deleted = True\<rparr>,
         \<lparr>name = ''tt'', posted = [''T:a.'', ''Q''], polls = 2, deleted = True\<rparr>])
   \<and> (\<exists>outcomes.
         list_all2 (\<lambda>topic r. \<exists>ss.
             at (resume (scripted_tale fails_on_b echo never [''b'', ''a''])
                   (new_task ''T:'' ''Q'' topic) ss) = Returned r)
           [''b'', ''a''] outcomes
       \<and> map_tuple (map the (filter (\<lambda>r. r \<noteq> None) outcomes)) = Inr [[''re T:a.'', ''re Q'']])"
proof -
  have e: "write_fairy_tales (scripted_tale fails_on_b echo never [''b'', ''a'']) ''T:'' ''Q''
      (concat (replicate 15 [0, 1])) []
     = Some (Inr [[''re T:a.'', ''re Q'']],
        [\<lparr>name = ''t'', posted = [''T:b.'', ''Q''], polls = 2, deleted = True\<rparr>,
         \<lparr>name = ''tt'', posted = [''T:a.'', ''Q''], polls = 2, deleted = True\<rparr>])"
    by code_simp
  have t: "topics (scripted_tale fails_on_b echo never [''b'', ''a'']) = [''b'', ''a'']"
    by (simp add: scripted_tale_def AsyncOpenAI.extend_def FairyTale.fields_def)
  from write_fairy_tales_keeps_siblings
    [of "scripted_tale fails_on_b echo never [''b'', ''a'']" "''T:''" "''Q''"
        "concat (replicate 15 [0, 1])" "[]" "[[''re T:a.'', ''re Q'']]"
        "[\<lparr>name = ''t'', posted = [''T:b.'', ''Q''], polls = 2, deleted = True\<rparr>,
          \<lparr>name = ''tt'', posted = [''T:a.'', ''Q''], polls = 2, deleted = True\<rparr>]"]
    e t
  show ?thesis by simp
qed

text \<open>
  C2 as stated fails: the pipeline of topic \<open>a\<close> returns a result, then posting the
  first message of topic \<open>b\<close> raises, and \<open>write_fairy_tales\<close> raises that exception:
  no list is returned, and the result of \<open>a\<close> is lost with it.
\<close>

theorem write_fairy_tales_raises_counterexample:
  "fst (run_alone (scripted_tale fails_on_b echo (\<lambda>msg. msg = ''T:b.'') [''a'', ''b'']) 15
          (new_task ''T:'' ''Q'' ''a'') [])
     = \<lparr>first_arg = ''T:a.'', second_arg = ''Q'',
        at = Returned (Some
          [\<lparr>role = ''user'', content = [Text_block ''T:a.'']\<rparr>,
           \<lparr>role = ''assistant'', content = [Text_block ''re T:a.'']\<rparr>,
           \<lparr>role = ''user'', content = [Text_block ''Q'']\<rparr>,
           \<lparr>role = ''assistant'', content = [Text_block ''re Q'']\<rparr>])\<rparr>
   \<and> write_fairy_tales (scripted_tale fails_on_b echo (\<lambda>msg. msg = ''T:b.'') [''a'', ''b''])
        ''T:'' ''Q'' (replicate 15 0 @ replicate 15 1) []
     = Some (Inl OpenAIError,
        [\<lparr>name = ''t'', posted = [''T:a.'', ''Q''], polls = 2, deleted = True\<rparr>,
         \<lparr>name = ''tt'', posted = [], polls = 0, deleted = False\<rparr>])"
  by code_simp

text \<open>
  C7 (amended). If gather returns and every pipeline has returned None, that is, every
  pipeline ended with a run that did not complete, then \<open>write_fairy_tales\<close> returns
  the empty list and raises nothing.
\<close>

theorem write_fairy_tales_all_fail:
  assumes "gather self sched (map (new_task first_prompt second_prompt) (topics self)) s
             = Some (Inr rs, s')"
    and "\<forall>r \<in> set rs. r = None"
  shows "write_fairy_tales self first_prompt second_prompt sched s = Some (Inr [], s')"
proof -
  from assms(2) have "filter (\<lambda>x. x \<noteq> None) rs = []"
    by (auto simp: filter_empty_conv)
  with assms(1) show ?thesis by (simp add: write_fairy_tales_def)
qed

theorem write_fairy_tales_all_fail_witness:
  "gather (scripted_tale (\<lambda>msg. ''failed'') echo never [''a'', ''b''])
      (concat (replicate 15 [1, 0]))
      (map (new_task ''T:'' ''Q'')
         (topics (scripted_tale (\<lambda>msg. ''failed'') echo never [''a'', ''b'']))) []
     = Some (Inr [None, None],
        [\<lparr>name = ''t'', posted = [''T:b.'', ''Q''], polls = 2, deleted = True\<rparr>,
         \<lparr>name = ''tt'', posted = [''T:a.'', ''Q''], polls = 2, deleted = True\<rparr>])
   \<and> write_fairy_tales (scripted_tale (\<lambda>msg. ''failed'') echo never [''a'', ''b'']) ''T:'' ''Q''
        (concat (replicate 15 [1, 0])) []
     = Some (Inr [],
        [\<lparr>name = ''t'', posted = [''T:b.'', ''Q''], polls = 2, deleted = True\<rparr>,
         \<lparr>name = ''tt'', posted = [''T:a.'', ''Q''], polls = 2, deleted = True\<rparr>])"
proof -
  have g: "gather (scripted_tale (\<lambda>msg. ''failed'') echo never [''a'', ''b''])
      (concat (replicate 15 [1, 0]))
      (map (new_task ''T:'' ''Q'')
         (topics (scripted_tale (\<lambda>msg. ''failed'') echo never [''a'', ''b'']))) []
     = Some (Inr [None, None],
        [\<lparr>name = ''t'', posted = [''T:b.'', ''Q''], polls = 2, deleted = True\<rparr>,
         \<lparr>name = ''tt'', posted = [''T:a.'', ''Q''], polls = 2, deleted = True\<rparr>])"
    by code_simp
  from write_fairy_tales_all_fail [OF g] g show ?thesis by simp
qed

text \<open>
  C7 as stated fails when a pipeline fails by an exception: the pipeline of topic \<open>a\<close>
  ends with a failed run and returns None, posting the first message of topic \<open>b\<close>
  raises, and \<open>write_fairy_tales\<close> raises instead of returning the empty list.
\<close>

theorem write_fairy_tales_all_fail_counterexample:
  "fst (run_alone (scripted_tale (\<lambda>msg. ''failed'') echo (\<lambda>msg. msg = ''T:b.'') [''a'', ''b'']) 15
          (new_task ''T:'' ''Q'' ''a'') [])
     = \<lparr>first_arg = ''T:a.'', second_arg = ''Q'', at = Returned None\<rparr>
   \<and> write_fairy_tales
        (scripted_tale (\<lambda>msg. ''failed'') echo (\<lambda>msg. msg = ''T:b.'') [''a'', ''b''])
        ''T:'' ''Q'' (replicate 15 0 @ replicate 15 1) []
     = Some (Inl OpenAIError,
        [\<lparr>name = ''t'', posted = [''T:a.'', ''Q''], polls = 2, deleted = True\<rparr>,
         \<lparr>name = ''tt'', posted = [], polls = 0, deleted = False\<rparr>])"
  by code_simp

section \<open>Properties of the document assembler\<close>

lemma outputs_call:
  "outputs (call c pdf) = outputs pdf @ (case c of Output p \<Rightarrow> [p] | _ \<Rightarrow> [])"
  by (simp add: outputs_def call_def)

lemma outputs_title_page: "outputs (title_page pdf) = outputs pdf"
  by (simp add: title_page_def outputs_call)

lemma outputs_subtitle: "outputs (subtitle pdf t) = outputs pdf"
  by (simp add: subtitle_def outputs_call)

lemma outputs_content_pdf: "outputs (content_pdf pdf t b) = outputs pdf"
  by (simp add: content_pdf_def outputs_call Let_def)

lemma save_loop_outputs: "outputs (snd (save_loop pdf i n rs)) = outputs pdf"
  by (induction pdf i n rs rule: save_loop.induct)
     (simp_all add: outputs_subtitle outputs_content_pdf)

lemma save_loop_path: "path (snd (save_loop pdf i n rs)) = path pdf"
  by (induction pdf i n rs rule: save_loop.induct)
     (simp_all add: subtitle_def content_pdf_def call_def Let_def)

lemma save_loop_invalid:
  "\<not> list_all is_str_pair rs \<Longrightarrow> fst (save_loop pdf i n rs) = Inl ValueError"
  by (induction pdf i n rs rule: save_loop.induct) simp_all

lemma save_loop_valid:
  "list_all is_str_pair rs \<Longrightarrow> fst (save_loop pdf i n rs) = Inr ()"
  by (induction pdf i n rs rule: save_loop.induct) simp_all

text \<open>
  C9. If some entry of the result list is not a pair of two strings (its content or its
  title is not a string, or it does not have exactly two elements), then
  \<open>save_fairy_tales\<close> raises ValueError and \<^verbatim>\<open>self.output\<close> is not called: the
  files written are those written before the call.
\<close>

theorem save_fairy_tales_invalid:
  assumes "\<exists>entry \<in> set rs. \<not> is_str_pair entry"
  shows "fst (save_fairy_tales pdf rs) = Inl ValueError
       \<and> outputs (snd (save_fairy_tales pdf rs)) = outputs pdf"
proof -
  from assms have bad: "\<not> list_all is_str_pair rs"
    by (simp add: list_all_iff)
  obtain r pdf' where run: "save_loop (title_page pdf) 0 (length rs) rs = (r, pdf')"
    by (cases "save_loop (title_page pdf) 0 (length rs) rs")
  from save_loop_invalid [OF bad, of "title_page pdf" 0 "length rs"] run
  have r: "r = Inl ValueError" by simp
  from save_loop_outputs [of "title_page pdf" 0 "length rs" rs] run
  have "outputs pdf' = outputs pdf" by (simp add: outputs_title_page)
  with run r show ?thesis by (simp add: save_fairy_tales_def)
qed

theorem save_fairy_tales_invalid_witness:
  "fst (save_fairy_tales \<lparr>path = ''out.pdf'', calls = []\<rparr>
         [[Str ''once'', Str ''A''], [Str ''x'', Int_val 3]]) = Inl ValueError
   \<and> outputs (snd (save_fairy_tales \<lparr>path = ''out.pdf'', calls = []\<rparr>
         [[Str ''once'', Str ''A''], [Str ''x'', Int_val 3]])) = []"
  using save_fairy_tales_invalid
    [of "[[Str ''once'', Str ''A''], [Str ''x'', Int_val 3]]" "\<lparr>path = ''out.pdf'', calls = []\<rparr>"]
  by (simp add: outputs_def)

text \<open>When every entry is a pair of strings the file is written, once, at the end.\<close>

lemma save_fairy_tales_valid:
  assumes "list_all is_str_pair rs"
  shows "fst (save_fairy_tales pdf rs) = Inr ()
       \<and> outputs (snd (save_fairy_tales pdf rs)) = outputs pdf @ [path pdf]"
proof -
  obtain r pdf' where run: "save_loop (title_page pdf) 0 (length rs) rs = (r, pdf')"
    by (cases "save_loop (title_page pdf) 0 (length rs) rs")
  from save_loop_valid [OF assms, of "title_page pdf" 0 "length rs"] run
  have r: "r = Inr ()" by simp
  from save_loop_outputs [of "title_page pdf" 0 "length rs" rs] run
  have o: "outputs pdf' = outputs pdf" by (simp add: outputs_title_page)
  from save_loop_path [of "title_page pdf" 0 "length rs" rs] run
  have "path pdf' = path pdf" by (simp add: title_page_def call_def)
  with run r o show ?thesis by (simp add: save_fairy_tales_def outputs_call)
qed

end
